theory Spec2Isabelle
  imports Main
begin

section \<open>The crawler of us\_army.py\<close>

text \<open>
  The program fetches pages with \<^verbatim>\<open>requests\<close>, queries them with BeautifulSoup's
  \<^verbatim>\<open>select\<close> and builds a tree of dictionaries. Both libraries are outside the
  program; the model takes what they return as data:
  \<^item> an element is what the program reads from a tag: \<^verbatim>\<open>get_text(strip=True)\<close>,
    \<^verbatim>\<open>get('href')\<close> and, for the anchors of the top-level scan, \<^verbatim>\<open>find('h4')\<close>;
  \<^item> a parsed page is the function from a CSS selector to the list of tags that
    \<^verbatim>\<open>soup.select\<close> returns for it, in document order;
  \<^item> the network and \<^verbatim>\<open>requests.compat.urljoin\<close> are parameters. The answer of the
    network may differ from one request to the next, so it depends on the number of
    requests already made. \<^verbatim>\<open>urljoin\<close> raises \<^verbatim>\<open>ValueError\<close> on some links; it is
    called outside any \<^verbatim>\<open>try\<close>, so the exception ends the crawl and the program:
    a function that raises returns neither a value nor a state.
  \<^verbatim>\<open>print\<close> and \<^verbatim>\<open>time.sleep\<close> have no effect on any value and are left out. The
  state keeps, besides the visited set, the list of URLs passed to
  \<^verbatim>\<open>requests.get\<close> and the list of calls of \<^verbatim>\<open>visited_urls.add\<close>.
\<close>

subsection \<open>Pages and the environment\<close>

record element =
  get_text :: string
  href :: "string option"
  find_h4 :: "string option"

type_synonym soup = "string \<Rightarrow> element list"

text \<open>
  The only exception that leaves a function of the program: every other one is
  caught inside \<^verbatim>\<open>get_soup\<close>. A function that can raise returns a sum, \<open>Inl\<close> the
  exception.
\<close>

datatype py_error = ValueError

record env =
  requests_get :: "nat \<Rightarrow> string \<Rightarrow> soup option"
  urljoin :: "string \<Rightarrow> string \<Rightarrow> py_error + string"

definition BASE_URL :: string where
  "BASE_URL = ''https://currentops.com''"

definition TARGET_URL :: string where
  "TARGET_URL = ''https://currentops.com/units/us''"

text \<open>The entries of the table \<^verbatim>\<open>SELECTORS\<close>, and the selector of the top-level scan.\<close>

definition flat_list :: string where
  "flat_list = ''.subords-units ul a''"

definition first_level :: string where
  "first_level = ''.subords-units > li > ul > li > div:nth-child(1) > a''"

definition second_level :: string where
  "second_level = ''.subords-units > li > ul > li > div .margin-right-5px+ a''"

definition third_level :: string where
  "third_level = ''.subords-units ul ul .margin-right-5px+ a''"

definition full_unit_name_sel :: string where
  "full_unit_name_sel = ''.grippy-host, .subords-units ul ul .margin-right-5px+ a''"

definition location_name_sel :: string where
  "location_name_sel = ''.subords-units ul ul .location a''"

definition location_details_sel :: string where
  "location_details_sel = ''.subords-units ul ul i''"

definition anchor_with_heading :: string where
  "anchor_with_heading = ''div > a:has(h4)''"

subsection \<open>The crawl state\<close>

text \<open>
  \<open>visited_urls\<close> is the module-level set of the program. \<open>fetched\<close> is the list of
  URLs that \<^verbatim>\<open>get_soup\<close> has passed to \<^verbatim>\<open>requests.get\<close>, oldest first. \<open>added\<close> is
  the list of the calls of \<^verbatim>\<open>visited_urls.add\<close>, oldest first, each with the place
  that made it: the entry of the nested pass (line 91) or the end of a main branch
  (line 235). The program has no other call.
\<close>

datatype mark = Nested_entry string | Branch_done string

record state =
  visited_urls :: "string set"
  fetched :: "string list"
  added :: "mark list"

definition get_soup :: "env \<Rightarrow> string \<Rightarrow> state \<Rightarrow> soup option \<times> state" where
  "get_soup e u s =
     (requests_get e (length (fetched s)) u, s\<lparr>fetched := fetched s @ [u]\<rparr>)"

subsection \<open>Classifier and metadata\<close>

definition has_nested_structure :: "soup \<Rightarrow> bool" where
  "has_nested_structure sp = (0 < length (sp second_level))"

record additional_info =
  full_unit_name :: "string option"
  location_name :: "string option"
  location_details :: "string option"

definition no_info :: additional_info where
  "no_info = \<lparr>full_unit_name = None, location_name = None, location_details = None\<rparr>"

text \<open>
  One field of \<^verbatim>\<open>extract_additional_info\<close>: the key is set, to the text of element 0,
  when the list of matches is not empty, and is left out otherwise.
\<close>

fun first_text :: "element list \<Rightarrow> string option" where
  "first_text [] = None"
| "first_text (x # xs) = Some (get_text x)"

definition extract_additional_info :: "soup \<Rightarrow> additional_info" where
  "extract_additional_info sp =
     \<lparr>full_unit_name = first_text (sp full_unit_name_sel),
      location_name = first_text (sp location_name_sel),
      location_details = first_text (sp location_details_sel)\<rparr>"

text \<open>The metadata of a page that may not have been fetched: empty when it was not.\<close>

definition additional_info_of :: "soup option \<Rightarrow> additional_info" where
  "additional_info_of item_soup =
     (case item_soup of None \<Rightarrow> no_info | Some sp \<Rightarrow> extract_additional_info sp)"

subsection \<open>The tree\<close>

datatype kind = Main_branch | Subcategory | Level_item int | Flat_item

datatype item =
  Item (item_name: string) (item_url: string) (item_type: kind)
       (item_info: additional_info) (subunits: "item list option")

record subcategory =
  sub_name :: string
  sub_url :: string
  sub_type :: kind
  sub_info :: additional_info
  units :: "item list option"

record component =
  comp_name :: string
  comp_url :: string
  comp_type :: kind
  comp_info :: additional_info
  subcategories :: "subcategory list option"

text \<open>A child list is stored under its key only when it is not empty.\<close>

definition attach :: "'a list \<Rightarrow> 'a list option" where
  "attach xs = (if xs \<noteq> [] then Some xs else None)"

subsection \<open>Links\<close>

definition startswith_http :: "string \<Rightarrow> bool" where
  "startswith_http h = (take 4 h = ''http'')"

text \<open>
  A link that is empty or starts with \<^verbatim>\<open>http\<close> is kept as it is; any other link goes
  through \<^verbatim>\<open>urljoin\<close>, which may raise.
\<close>

definition resolve :: "env \<Rightarrow> string \<Rightarrow> string \<Rightarrow> py_error + string" where
  "resolve e base h =
     (if h \<noteq> [] \<and> \<not> startswith_http h then urljoin e base h else Inr h)"

subsection \<open>Flat extraction\<close>

text \<open>
  The loop of \<^verbatim>\<open>scrape_flat_structure\<close> over the selected elements. Every listed
  link is fetched; the visited set is not consulted.
\<close>

fun flat_loop ::
    "env \<Rightarrow> string \<Rightarrow> element list \<Rightarrow> state \<Rightarrow> py_error + item list \<times> state" where
  "flat_loop e base_url [] s = Inr ([], s)"
| "flat_loop e base_url (el # els) s =
     (if get_text el = [] then flat_loop e base_url els s
      else case href el of
        None \<Rightarrow> flat_loop e base_url els s
      | Some h \<Rightarrow>
          (case resolve e base_url h of
             Inl err \<Rightarrow> Inl err
           | Inr url \<Rightarrow>
               (case get_soup e url s of
                  (item_soup, s1) \<Rightarrow>
                    (case flat_loop e base_url els s1 of
                       Inl err \<Rightarrow> Inl err
                     | Inr (rest, s2) \<Rightarrow>
                         Inr (Item (get_text el) url Flat_item
                                (additional_info_of item_soup) None # rest, s2)))))"

definition scrape_flat_structure ::
    "env \<Rightarrow> soup \<Rightarrow> string \<Rightarrow> state \<Rightarrow> py_error + item list \<times> state" where
  "scrape_flat_structure e sp base_url s = flat_loop e base_url (sp flat_list) s"

subsection \<open>The nested pass\<close>

definition level_selector :: "int \<Rightarrow> string" where
  "level_selector depth =
     (if depth = 0 then first_level else if depth = 1 then second_level else third_level)"

text \<open>
  \<^verbatim>\<open>scrape_nested_structure\<close> and its loop over the selected elements. The pass adds
  its URL to the visited set before it requests its page. The loop fetches the
  child's page for its metadata and, below the depth limit, classifies it: a nested
  page is handed to the recursive call, any other page to the flat extraction.
\<close>

function scrape_nested_structure ::
    "env \<Rightarrow> string \<Rightarrow> int \<Rightarrow> int \<Rightarrow> state \<Rightarrow> py_error + item list \<times> state"
  and nested_loop ::
    "env \<Rightarrow> int \<Rightarrow> int \<Rightarrow> element list \<Rightarrow> state \<Rightarrow> py_error + item list \<times> state"
where
  "scrape_nested_structure e url depth max_depth s =
     (if url \<in> visited_urls s \<or> depth > max_depth then Inr ([], s)
      else
        let s1 = s\<lparr>visited_urls := insert url (visited_urls s),
                   added := added s @ [Nested_entry url]\<rparr>
        in case get_soup e url s1 of
             (None, s2) \<Rightarrow> Inr ([], s2)
           | (Some sp, s2) \<Rightarrow> nested_loop e depth max_depth (sp (level_selector depth)) s2)"
| "nested_loop e depth max_depth [] s = Inr ([], s)"
| "nested_loop e depth max_depth (el # els) s =
     (if get_text el = [] then nested_loop e depth max_depth els s
      else case href el of
        None \<Rightarrow> nested_loop e depth max_depth els s
      | Some h \<Rightarrow>
          (case resolve e BASE_URL h of
             Inl err \<Rightarrow> Inl err
           | Inr url \<Rightarrow>
               if url \<in> visited_urls s then nested_loop e depth max_depth els s
               else
                 (case get_soup e url s of
                    (item_soup, s1) \<Rightarrow>
                      (case (if depth < max_depth
                             then (case item_soup of
                                     None \<Rightarrow> Inr (None, s1)
                                   | Some sp \<Rightarrow>
                                       if has_nested_structure sp
                                       then (case scrape_nested_structure e url (depth + 1)
                                                    max_depth s1 of
                                               Inl err \<Rightarrow> Inl err
                                             | Inr (sub_items, s2) \<Rightarrow>
                                                 Inr (attach sub_items, s2))
                                       else (case scrape_flat_structure e sp url s1 of
                                               Inl err \<Rightarrow> Inl err
                                             | Inr (flat_items, s2) \<Rightarrow>
                                                 Inr (attach flat_items, s2)))
                             else Inr (None, s1)) of
                         Inl err \<Rightarrow> Inl err
                       | Inr (subs, s3) \<Rightarrow>
                           (case nested_loop e depth max_depth els s3 of
                              Inl err \<Rightarrow> Inl err
                            | Inr (rest, s4) \<Rightarrow>
                                Inr (Item (get_text el) url (Level_item (depth + 1))
                                       (additional_info_of item_soup) subs # rest,
                                     s4))))))"
  by pat_completeness auto
termination
  by (relation "inv_image (less_than <*lex*> less_than <*lex*> less_than)
        (\<lambda>x. case x of
           Inl (e, url, depth, max_depth, s) \<Rightarrow> (nat (max_depth + 1 - depth), 1, 0)
         | Inr (e, depth, max_depth, els, s) \<Rightarrow> (nat (max_depth + 1 - depth), 0, length els))")
     auto

subsection \<open>The top-level pass\<close>

text \<open>
  The loop over the subcategory anchors of a branch page. An anchor without a
  heading is skipped. A missing \<^verbatim>\<open>href\<close> reaches \<^verbatim>\<open>requests.get\<close> as \<^verbatim>\<open>None\<close>,
  which raises before any request is made: \<^verbatim>\<open>get_soup\<close> returns \<^verbatim>\<open>None\<close> and the
  candidate is skipped, like one whose page cannot be fetched. The nested pass is
  called with its defaults, depth 0 and limit 3.
\<close>

fun sub_loop ::
    "env \<Rightarrow> element list \<Rightarrow> state \<Rightarrow> py_error + subcategory list \<times> state" where
  "sub_loop e [] s = Inr ([], s)"
| "sub_loop e (sub_a_tag # sub_a_tags) s =
     (case find_h4 sub_a_tag of
        None \<Rightarrow> sub_loop e sub_a_tags s
      | Some name \<Rightarrow>
          (case href sub_a_tag of
             None \<Rightarrow> sub_loop e sub_a_tags s
           | Some h \<Rightarrow>
               (case resolve e BASE_URL h of
                  Inl err \<Rightarrow> Inl err
                | Inr sub_href \<Rightarrow>
                    (case get_soup e sub_href s of
                       (None, s1) \<Rightarrow> sub_loop e sub_a_tags s1
                     | (Some sub_soup, s1) \<Rightarrow>
                         (case (if has_nested_structure sub_soup
                                then scrape_nested_structure e sub_href 0 3 s1
                                else scrape_flat_structure e sub_soup sub_href s1) of
                            Inl err \<Rightarrow> Inl err
                          | Inr (items, s2) \<Rightarrow>
                              (case sub_loop e sub_a_tags s2 of
                                 Inl err \<Rightarrow> Inl err
                               | Inr (rest, s3) \<Rightarrow>
                                   Inr (\<lparr>sub_name = name, sub_url = sub_href,
                                         sub_type = Subcategory,
                                         sub_info = extract_additional_info sub_soup,
                                         units = attach items\<rparr> # rest, s3)))))))"

text \<open>
  The loop over the main-branch anchors of the entry page. The branch URL is added
  to the visited set after the branch has been appended.
\<close>

fun main_loop ::
    "env \<Rightarrow> element list \<Rightarrow> state \<Rightarrow> py_error + component list \<times> state" where
  "main_loop e [] s = Inr ([], s)"
| "main_loop e (a_tag # a_tags) s =
     (case find_h4 a_tag of
        None \<Rightarrow> main_loop e a_tags s
      | Some name \<Rightarrow>
          (case href a_tag of
             None \<Rightarrow> main_loop e a_tags s
           | Some h \<Rightarrow>
               (case resolve e BASE_URL h of
                  Inl err \<Rightarrow> Inl err
                | Inr url \<Rightarrow>
                    if url \<in> visited_urls s then main_loop e a_tags s
                    else
                      (case get_soup e url s of
                         (None, s1) \<Rightarrow> main_loop e a_tags s1
                       | (Some soup_branch, s1) \<Rightarrow>
                           (case sub_loop e (soup_branch anchor_with_heading) s1 of
                              Inl err \<Rightarrow> Inl err
                            | Inr (subcats, s2) \<Rightarrow>
                                (case main_loop e a_tags
                                        (s2\<lparr>visited_urls := insert url (visited_urls s2),
                                            added := added s2 @ [Branch_done url]\<rparr>) of
                                   Inl err \<Rightarrow> Inl err
                                 | Inr (rest, s3) \<Rightarrow>
                                     Inr (\<lparr>comp_name = name, comp_url = url,
                                           comp_type = Main_branch,
                                           comp_info = extract_additional_info soup_branch,
                                           subcategories = attach subcats\<rparr> # rest, s3)))))))"

definition scrape_main_components ::
    "env \<Rightarrow> state \<Rightarrow> py_error + component list \<times> state" where
  "scrape_main_components e s =
     (case get_soup e TARGET_URL (s\<lparr>visited_urls := {}\<rparr>) of
        (None, s1) \<Rightarrow> Inr ([], s1)
      | (Some sp, s1) \<Rightarrow> main_loop e (sp anchor_with_heading) s1)"

text \<open>The module calls the top-level pass once, before any request has been made.\<close>

definition start :: state where
  "start = \<lparr>visited_urls = {}, fetched = [], added = []\<rparr>"

subsection \<open>Statistics\<close>

record stats =
  main_branches :: nat
  subcategories_count :: nat
  units_count :: nat
  subunits_count :: nat
  flat_items :: nat
  with_location :: nat
  with_full_name :: nat

definition has_location :: "additional_info \<Rightarrow> bool" where
  "has_location i = (location_name i \<noteq> None \<or> location_details i \<noteq> None)"

definition has_full_name :: "additional_info \<Rightarrow> bool" where
  "has_full_name i = (full_unit_name i \<noteq> None)"

definition get_list :: "'a list option \<Rightarrow> 'a list" where
  "get_list v = (case v of None \<Rightarrow> [] | Some xs \<Rightarrow> xs)"

text \<open>
  The local function \<^verbatim>\<open>count_subunits\<close>: the four counters, in the order in which it
  returns them.
\<close>

function count_subunits :: "item list \<Rightarrow> nat \<times> nat \<times> nat \<times> nat" where
  "count_subunits [] = (0, 0, 0, 0)"
| "count_subunits (Item n u t i subs # items) =
     (case count_subunits (get_list subs) of
        (sub_count, sub_flat, sub_loc, sub_full) \<Rightarrow>
          (case count_subunits items of
             (count, flat_count, location_count, fullname_count) \<Rightarrow>
               (length (get_list subs) + sub_count + count,
                (if t = Flat_item then 1 else 0) + sub_flat + flat_count,
                (if has_location i then 1 else 0) + sub_loc + location_count,
                (if has_full_name i then 1 else 0) + sub_full + fullname_count)))"
  by pat_completeness auto
termination
  by (relation "measure (size_list size)") (auto simp: get_list_def split: option.splits)

fun subcat_stats :: "subcategory list \<Rightarrow> stats \<Rightarrow> stats" where
  "subcat_stats [] st = st"
| "subcat_stats (subcat # subcats) st =
     (let st1 = (if has_location (sub_info subcat)
                 then st\<lparr>with_location := with_location st + 1\<rparr> else st);
          st2 = (if has_full_name (sub_info subcat)
                 then st1\<lparr>with_full_name := with_full_name st1 + 1\<rparr> else st1);
          us = get_list (units subcat);
          st3 = st2\<lparr>units_count := units_count st2 + length us\<rparr>
      in case count_subunits us of
           (subunit_count, flat_count, loc_count, full_count) \<Rightarrow>
             subcat_stats subcats
               (st3\<lparr>subunits_count := subunits_count st3 + subunit_count,
                    flat_items := flat_items st3 + flat_count,
                    with_location := with_location st3 + loc_count,
                    with_full_name := with_full_name st3 + full_count\<rparr>))"

fun branch_stats :: "component list \<Rightarrow> stats \<Rightarrow> stats" where
  "branch_stats [] st = st"
| "branch_stats (branch # branches) st =
     (let st1 = (if has_location (comp_info branch)
                 then st\<lparr>with_location := with_location st + 1\<rparr> else st);
          st2 = (if has_full_name (comp_info branch)
                 then st1\<lparr>with_full_name := with_full_name st1 + 1\<rparr> else st1);
          subcats = get_list (subcategories branch);
          st3 = st2\<lparr>subcategories_count := subcategories_count st2 + length subcats\<rparr>
      in branch_stats branches (subcat_stats subcats st3))"

definition count_statistics :: "component list \<Rightarrow> stats" where
  "count_statistics data =
     branch_stats data
       \<lparr>main_branches = length data, subcategories_count = 0, units_count = 0,
        subunits_count = 0, flat_items = 0, with_location = 0, with_full_name = 0\<rparr>"

subsection \<open>Reference notions\<close>

text \<open>
  The nodes reachable from a unit through its child lists, the unit itself excluded.
  A unit without the key \<^verbatim>\<open>subunits\<close> has none.
\<close>

fun descendants :: "item \<Rightarrow> item list" where
  "descendants (Item n u t i None) = []"
| "descendants (Item n u t i (Some cs)) = concat (map (\<lambda>c. c # descendants c) cs)"

text \<open>
  The state after one more request, after the entry of a nested pass, and after the
  end of a main branch.
\<close>

abbreviation logged :: "state \<Rightarrow> string \<Rightarrow> state" where
  "logged s u \<equiv> s\<lparr>fetched := fetched s @ [u]\<rparr>"

abbreviation entered :: "state \<Rightarrow> string \<Rightarrow> state" where
  "entered s u \<equiv>
     s\<lparr>visited_urls := insert u (visited_urls s), added := added s @ [Nested_entry u]\<rparr>"

abbreviation branch_done :: "state \<Rightarrow> string \<Rightarrow> state" where
  "branch_done s u \<equiv>
     s\<lparr>visited_urls := insert u (visited_urls s), added := added s @ [Branch_done u]\<rparr>"

abbreviation page_at :: "env \<Rightarrow> state \<Rightarrow> string \<Rightarrow> soup option" where
  "page_at e s u \<equiv> requests_get e (length (fetched s)) u"

text \<open>All nodes of a list of units: each unit followed by the nodes below it.\<close>

definition nodes :: "item list \<Rightarrow> item list" where
  "nodes xs = concat (map (\<lambda>x. x # descendants x) xs)"

text \<open>\<open>levels k x\<close>: the tree of the unit \<open>x\<close> has at most \<open>k\<close> levels, \<open>x\<close> included.\<close>

fun levels :: "nat \<Rightarrow> item \<Rightarrow> bool" where
  "levels 0 x = False"
| "levels (Suc k) x = list_all (levels k) (get_list (subunits x))"

text \<open>
  \<open>kind_within lo hi k\<close>: the tag \<open>k\<close> is that of a flat item, or that of a level
  between \<open>lo\<close> and \<open>hi\<close>.
\<close>

definition kind_within :: "int \<Rightarrow> int \<Rightarrow> kind \<Rightarrow> bool" where
  "kind_within lo hi k =
     (case k of Flat_item \<Rightarrow> True | Level_item n \<Rightarrow> lo \<le> n \<and> n \<le> hi | _ \<Rightarrow> False)"


text \<open>
  The URLs of the nodes that the nested pass built, in a list of units and below a
  list of subcategories; with the URLs of the subcategories themselves, these are
  the URLs that a nested pass can have been called with.
\<close>

definition level_urls :: "item list \<Rightarrow> string set" where
  "level_urls r = item_url ` {y \<in> set (nodes r). item_type y \<noteq> Flat_item}"

definition unit_urls :: "subcategory list \<Rightarrow> string set" where
  "unit_urls scs = (\<Union>sc\<in>set scs. insert (sub_url sc) (level_urls (get_list (units sc))))"

text \<open>A list of units holds a node that the nested pass built.\<close>

definition has_level :: "item list \<Rightarrow> bool" where
  "has_level xs = (\<exists>y\<in>set xs. item_type y \<noteq> Flat_item)"

text \<open>
  The additions that one branch of the result accounts for: the entries \<open>us\<close> of the
  nested passes below it, then the branch itself. The entries lie among the URLs
  below the branch, and hold the URL of every subcategory that has a unit built by
  the nested pass.
\<close>

definition branch_marks :: "string list \<Rightarrow> component \<Rightarrow> mark list" where
  "branch_marks us c = map Nested_entry us @ [Branch_done (comp_url c)]"

definition branch_entries :: "string list \<Rightarrow> component \<Rightarrow> bool" where
  "branch_entries us c =
     (set us \<subseteq> unit_urls (get_list (subcategories c)) \<and>
      (\<forall>sc\<in>set (get_list (subcategories c)).
         has_level (get_list (units sc)) \<longrightarrow> sub_url sc \<in> set us))"

subsection \<open>Example sites\<close>

text \<open>
  Small sites on which the functions are evaluated. \<open>page\<close> builds a parsed page from
  the matches of the selectors that match anything; \<open>site\<close> builds an environment
  whose pages never change and whose \<^verbatim>\<open>urljoin\<close> appends the link to the base, except
  that it raises on the link \<^verbatim>\<open>//[\<close>.
\<close>

definition link :: "string \<Rightarrow> string \<Rightarrow> element" where
  "link t h = \<lparr>get_text = t, href = Some h, find_h4 = None\<rparr>"

definition heading_link :: "string \<Rightarrow> string \<Rightarrow> element" where
  "heading_link t h = \<lparr>get_text = t, href = Some h, find_h4 = Some t\<rparr>"

definition plain :: "string \<Rightarrow> element" where
  "plain t = \<lparr>get_text = t, href = None, find_h4 = None\<rparr>"

definition page :: "(string \<times> element list) list \<Rightarrow> soup" where
  "page kvs sel = (case map_of kvs sel of None \<Rightarrow> [] | Some els \<Rightarrow> els)"

definition site :: "(string \<times> soup) list \<Rightarrow> env" where
  "site pages =
     \<lparr>requests_get = (\<lambda>n. map_of pages),
      urljoin = (\<lambda>b h. if h = ''//['' then Inl ValueError else Inr (b @ h))\<rparr>"

text \<open>
  A page whose list has one level of items, each link preceded by a marker: the
  first-level, second-level and flat selectors all match the same anchors.
\<close>

definition nested_page :: "element list \<Rightarrow> soup" where
  "nested_page els = page [(first_level, els), (second_level, els), (flat_list, els)]"

text \<open>A page whose only match is an icon without text in a second-level list.\<close>

definition icon_page :: soup where
  "icon_page = page [(location_details_sel, [plain []])]"

text \<open>A page with a grippy host, a location link and a location note.\<close>

definition unit_page :: soup where
  "unit_page = page [(full_unit_name_sel, [plain ''1st Brigade'', plain ''2nd Brigade'']),
                     (location_name_sel, [link ''Fort Hood'' ''/loc/1'']),
                     (location_details_sel, [plain ''Texas''])]"

text \<open>Sites on which parts of the crawl fail or find nothing.\<close>

definition down_site :: env where
  "down_site = site []"

definition empty_site :: env where
  "empty_site = site [(TARGET_URL, page [])]"

definition lost_branch_site :: env where
  "lost_branch_site =
     site [(TARGET_URL, page [(anchor_with_heading, [heading_link ''Army'' ''http://b''])])]"

text \<open>
  A site whose entry page and branch page each hold one anchor around a heading
  without text.
\<close>

definition nameless_site :: env where
  "nameless_site =
     site [(TARGET_URL, page [(anchor_with_heading, [heading_link [] ''http://b''])]),
           (''http://b'', page [(anchor_with_heading, [heading_link [] ''http://s''])]),
           (''http://s'', page [])]"

text \<open>A tree with one branch, one subcategory, one unit and one subunit.\<close>

definition small_tree :: "component list" where
  "small_tree =
     [\<lparr>comp_name = ''Army'', comp_url = ''http://b'', comp_type = Main_branch,
       comp_info = no_info,
       subcategories = Some
         [\<lparr>sub_name = ''Corps'', sub_url = ''http://s'', sub_type = Subcategory,
           sub_info = no_info,
           units = Some
             [Item ''X'' ''http://x'' (Level_item 1) no_info
                (Some [Item ''Y'' ''http://y'' (Level_item 2) no_info None])]\<rparr>]\<rparr>]"

text \<open>
  A site with one branch and one subcategory, whose page is nested and lists a unit
  whose page is nested again; and the pages below a subcategory, three levels deep.
\<close>

definition nested_site :: env where
  "nested_site = site
     [(TARGET_URL, page [(anchor_with_heading, [heading_link ''Army'' ''http://b''])]),
      (''http://b'', page [(anchor_with_heading, [heading_link ''Corps'' ''http://s''])]),
      (''http://s'', nested_page [link ''X'' ''http://x'']),
      (''http://x'', nested_page [link ''Y'' ''http://y''])]"

text \<open>
  A site whose subcategory page lists itself; and a site whose entry page holds a
  link that \<^verbatim>\<open>urljoin\<close> rejects.
\<close>

definition self_site :: env where
  "self_site = site [(''http://s'', nested_page [link ''S'' ''http://s''])]"

definition broken_link_site :: env where
  "broken_link_site =
     site [(TARGET_URL, page [(anchor_with_heading, [heading_link ''Army'' ''//[''])])]"

definition deep_site :: env where
  "deep_site = site
     [(''http://s'', nested_page [link ''X'' ''http://x'']),
      (''http://x'', nested_page [link ''Y'' ''http://y'']),
      (''http://y'', nested_page [link ''Z'' ''http://z''])]"

section \<open>Properties\<close>

subsection \<open>The classifier\<close>

text \<open>
  Claim C8. \<open>has_nested_structure\<close> is true exactly when the second-level selector
  matches at least one element of the page, and it depends on nothing but those
  matches: two pages with the same second-level matches get the same answer.
\<close>

theorem has_nested_structure_iff_second_level:
  "(has_nested_structure sp \<longleftrightarrow> (\<exists>el. el \<in> set (sp second_level))) \<and>
   (sp second_level = sp' second_level \<longrightarrow>
      has_nested_structure sp = has_nested_structure sp')"
  by (cases "sp second_level") (auto simp: has_nested_structure_def)

theorem has_nested_structure_iff_second_level_witness:
  "nested_page [link ''X'' ''http://x''] second_level =
     page [(second_level, [link ''X'' ''http://x''])] second_level \<and>
   has_nested_structure (nested_page [link ''X'' ''http://x'']) \<and>
   has_nested_structure (page [(second_level, [link ''X'' ''http://x''])]) \<and>
   \<not> has_nested_structure icon_page"
proof -
  have a: "nested_page [link ''X'' ''http://x''] second_level = [link ''X'' ''http://x'']"
    by (simp add: nested_page_def page_def first_level_def second_level_def)
  have b: "page [(second_level, [link ''X'' ''http://x''])] second_level = [link ''X'' ''http://x'']"
    by (simp add: page_def)
  have c: "icon_page second_level = []"
    by (simp add: icon_page_def page_def second_level_def location_details_sel_def)
  show ?thesis
    using has_nested_structure_iff_second_level
            [of "nested_page [link ''X'' ''http://x'']"
                "page [(second_level, [link ''X'' ''http://x''])]"]
          has_nested_structure_iff_second_level [of icon_page icon_page]
    by (auto simp: a b c)
qed

subsection \<open>Metadata\<close>

text \<open>
  Claim C5, as stated, fails: a key can be bound to the empty string. On a page
  whose first location-details match has no text, the key is present and empty.
\<close>

theorem extract_additional_info_empty_text:
  "location_details (extract_additional_info icon_page) = Some []"
  by (simp add: extract_additional_info_def icon_page_def page_def plain_def)

text \<open>
  Claim C5, amended. Each of the three keys is present exactly when its selector
  matches at least one element, and is then bound to the text of the first match,
  whatever that text is (the empty string included). The result is a plain value:
  the extraction has no failing case.
\<close>

theorem extract_additional_info_first_match:
  "(full_unit_name (extract_additional_info sp) = Some v \<longleftrightarrow>
      sp full_unit_name_sel \<noteq> [] \<and> v = get_text (hd (sp full_unit_name_sel))) \<and>
   (location_name (extract_additional_info sp) = Some v \<longleftrightarrow>
      sp location_name_sel \<noteq> [] \<and> v = get_text (hd (sp location_name_sel))) \<and>
   (location_details (extract_additional_info sp) = Some v \<longleftrightarrow>
      sp location_details_sel \<noteq> [] \<and> v = get_text (hd (sp location_details_sel))) \<and>
   (full_unit_name (extract_additional_info sp) = None \<longleftrightarrow> sp full_unit_name_sel = []) \<and>
   (location_name (extract_additional_info sp) = None \<longleftrightarrow> sp location_name_sel = []) \<and>
   (location_details (extract_additional_info sp) = None \<longleftrightarrow> sp location_details_sel = [])"
  by (cases "sp full_unit_name_sel"; cases "sp location_name_sel";
      cases "sp location_details_sel")
     (auto simp: extract_additional_info_def)

theorem extract_additional_info_first_match_witness:
  "extract_additional_info unit_page =
     \<lparr>full_unit_name = Some ''1st Brigade'', location_name = Some ''Fort Hood'',
      location_details = Some ''Texas''\<rparr> \<and>
   full_unit_name (extract_additional_info icon_page) = None"
  using extract_additional_info_first_match [of unit_page "''1st Brigade''"]
        extract_additional_info_first_match [of unit_page "''Fort Hood''"]
        extract_additional_info_first_match [of unit_page "''Texas''"]
        extract_additional_info_first_match [of icon_page "[]"]
  by (simp add: unit_page_def icon_page_def page_def plain_def link_def
        full_unit_name_sel_def location_name_sel_def location_details_sel_def
        extract_additional_info_def)

subsection \<open>Statistics\<close>

lemma count_with_self:
  "sum_list (map (\<lambda>c. Suc (length (descendants c))) cs) =
     sum_list (map (\<lambda>c. length (descendants c)) cs) + length cs"
  by (induction cs) simp_all

lemma descendants_length:
  "length (descendants (Item n u t i subs)) =
     length (get_list subs) + (\<Sum>c\<leftarrow>get_list subs. length (descendants c))"
  by (cases subs) (simp_all add: get_list_def length_concat comp_def count_with_self)

lemma count_subunits_count:
  "fst (count_subunits items) = (\<Sum>x\<leftarrow>items. length (descendants x))"
proof (induction items rule: count_subunits.induct)
  case 1
  show ?case by simp
next
  case (2 n u t i subs items)
  obtain a b c d where A: "count_subunits (get_list subs) = (a, b, c, d)"
    by (cases "count_subunits (get_list subs)") auto
  obtain a' b' c' d' where B: "count_subunits items = (a', b', c', d')"
    by (cases "count_subunits items") auto
  have "a = (\<Sum>c\<leftarrow>get_list subs. length (descendants c))"
    using "2.IH"(1) A by simp
  moreover have "a' = (\<Sum>x\<leftarrow>items. length (descendants x))"
    using "2.IH"(2) A B by simp
  ultimately show ?case
    by (simp add: A B descendants_length)
qed

lemma subcat_stats_units:
  "units_count (subcat_stats scs st) =
     units_count st + (\<Sum>sc\<leftarrow>scs. length (get_list (units sc)))"
  by (induction scs arbitrary: st) (simp_all add: Let_def split: prod.splits)

lemma subcat_stats_subunits:
  "subunits_count (subcat_stats scs st) =
     subunits_count st + (\<Sum>sc\<leftarrow>scs. \<Sum>x\<leftarrow>get_list (units sc). length (descendants x))"
proof (induction scs arbitrary: st)
  case Nil
  show ?case by simp
next
  case (Cons sc scs)
  have "fst (count_subunits (get_list (units sc))) =
          (\<Sum>x\<leftarrow>get_list (units sc). length (descendants x))"
    by (rule count_subunits_count)
  then show ?case
    by (auto simp: Let_def Cons.IH split: prod.splits)
qed

lemma branch_stats_units:
  "units_count (branch_stats bs st) =
     units_count st +
     (\<Sum>b\<leftarrow>bs. \<Sum>sc\<leftarrow>get_list (subcategories b). length (get_list (units sc)))"
  by (induction bs arbitrary: st) (simp_all add: Let_def subcat_stats_units)

lemma branch_stats_subunits:
  "subunits_count (branch_stats bs st) =
     subunits_count st +
     (\<Sum>b\<leftarrow>bs. \<Sum>sc\<leftarrow>get_list (subcategories b).
        \<Sum>x\<leftarrow>get_list (units sc). length (descendants x))"
  by (induction bs arbitrary: st) (simp_all add: Let_def subcat_stats_subunits)

text \<open>
  Claim C7. For every tree, the statistics count as units the lengths of the unit
  lists of all subcategories of all branches, and as subunits all nodes reachable
  from those units through child lists of any depth, the units themselves excluded.
  A missing child list counts as empty. The statistics are a function of the tree:
  nothing is written to it.
\<close>

theorem count_statistics_units_subunits:
  "units_count (count_statistics data) =
     (\<Sum>b\<leftarrow>data. \<Sum>sc\<leftarrow>get_list (subcategories b). length (get_list (units sc))) \<and>
   subunits_count (count_statistics data) =
     (\<Sum>b\<leftarrow>data. \<Sum>sc\<leftarrow>get_list (subcategories b).
        \<Sum>x\<leftarrow>get_list (units sc). length (descendants x))"
  by (simp add: count_statistics_def branch_stats_units branch_stats_subunits)

theorem count_statistics_units_subunits_witness:
  "units_count (count_statistics small_tree) = 1 \<and>
   subunits_count (count_statistics small_tree) = 1"
  using count_statistics_units_subunits [of small_tree]
  by (simp add: small_tree_def get_list_def)

subsection \<open>Runs on the example sites\<close>

lemmas run_simps =
  site_def page_def nested_page_def link_def heading_link_def start_def
  get_soup_def level_selector_def first_level_def second_level_def third_level_def
  flat_list_def TARGET_URL_def BASE_URL_def resolve_def startswith_http_def
  has_nested_structure_def extract_additional_info_def attach_def scrape_flat_structure_def
  anchor_with_heading_def full_unit_name_sel_def location_name_sel_def
  location_details_sel_def no_info_def additional_info_of_def Let_def scrape_main_components_def

lemma nested_site_run:
  "scrape_main_components nested_site start =
     Inr (small_tree,
      \<lparr>visited_urls = {''http://b'', ''http://x'', ''http://s''},
       fetched = [TARGET_URL, ''http://b'', ''http://s'', ''http://s'', ''http://x'',
                  ''http://x'', ''http://y''],
       added = [Nested_entry ''http://s'', Nested_entry ''http://x'',
                Branch_done ''http://b'']\<rparr>)"
  by (simp add: nested_site_def small_tree_def run_simps)

lemma nested_site_pass:
  "scrape_nested_structure nested_site ''http://s'' 0 3 start =
     Inr ([Item ''X'' ''http://x'' (Level_item 1) no_info
         (Some [Item ''Y'' ''http://y'' (Level_item 2) no_info None])],
      \<lparr>visited_urls = {''http://x'', ''http://s''},
       fetched = [''http://s'', ''http://x'', ''http://x'', ''http://y''],
       added = [Nested_entry ''http://s'', Nested_entry ''http://x'']\<rparr>)"
  by (simp add: nested_site_def run_simps)

lemma deep_site_limit_1:
  "scrape_nested_structure deep_site ''http://s'' 0 1 start =
     Inr ([Item ''X'' ''http://x'' (Level_item 1) no_info
         (Some [Item ''Y'' ''http://y'' (Level_item 2) no_info None])],
      \<lparr>visited_urls = {''http://x'', ''http://s''},
       fetched = [''http://s'', ''http://x'', ''http://x'', ''http://y''],
       added = [Nested_entry ''http://s'', Nested_entry ''http://x'']\<rparr>)"
  by (simp add: deep_site_def run_simps)

lemma deep_site_at_limit:
  "scrape_nested_structure deep_site ''http://x'' 1 1 start =
     Inr ([Item ''Y'' ''http://y'' (Level_item 2) no_info None],
      \<lparr>visited_urls = {''http://x''}, fetched = [''http://x'', ''http://y''],
       added = [Nested_entry ''http://x'']\<rparr>)"
  by (simp add: deep_site_def run_simps)

lemma self_site_pass:
  "scrape_nested_structure self_site ''http://s'' 0 3 start =
     Inr ([], \<lparr>visited_urls = {''http://s''}, fetched = [''http://s''],
               added = [Nested_entry ''http://s'']\<rparr>)"
  by (simp add: self_site_def run_simps)

lemma broken_link_site_run:
  "scrape_main_components broken_link_site start = Inl ValueError"
  by (simp add: broken_link_site_def run_simps)

lemma empty_site_run:
  "scrape_main_components empty_site start =
     Inr ([], \<lparr>visited_urls = {}, fetched = [TARGET_URL], added = []\<rparr>)"
  by (simp add: empty_site_def run_simps)

lemma lost_branch_site_run:
  "scrape_main_components lost_branch_site start =
     Inr ([], \<lparr>visited_urls = {}, fetched = [TARGET_URL, ''http://b''], added = []\<rparr>)"
  by (simp add: lost_branch_site_def run_simps)

lemma down_site_run:
  "scrape_main_components down_site start =
     Inr ([], \<lparr>visited_urls = {}, fetched = [TARGET_URL], added = []\<rparr>)"
  by (simp add: down_site_def run_simps)

subsection \<open>The steps of each pass\<close>

text \<open>
  The recursive equations are taken out of the simplifier and replaced by one
  equation for each path through the body of a pass, and by induction rules with one
  case for each of these paths.
\<close>

lemma nodes_simps [simp]:
  "nodes [] = []"
  "nodes (Item n u t i subs # xs) = Item n u t i subs # nodes (get_list subs) @ nodes xs"
  by (cases subs; simp add: nodes_def get_list_def)+

lemma nodes_attach [simp]: "nodes (get_list (attach xs)) = nodes xs"
  by (simp add: attach_def get_list_def)

lemma get_list_None [simp]: "get_list None = []"
  by (simp add: get_list_def)

lemma attach_not_empty [simp]: "attach xs \<noteq> Some []"
  by (simp add: attach_def)

lemma additional_info_of_None [simp]: "additional_info_of None = no_info"
  by (simp add: additional_info_of_def)

lemma additional_info_of_Some [simp]: "additional_info_of (Some sp) = extract_additional_info sp"
  by (simp add: additional_info_of_def)

declare scrape_nested_structure.simps [simp del]
declare nested_loop.simps(2) [simp del]

lemma nested_guard:
  "url \<in> visited_urls s \<or> max_depth < depth \<Longrightarrow>
   scrape_nested_structure e url depth max_depth s = Inr ([], s)"
  by (simp add: scrape_nested_structure.simps)

lemma nested_failed:
  "url \<notin> visited_urls s \<Longrightarrow> depth \<le> max_depth \<Longrightarrow> page_at e s url = None \<Longrightarrow>
   scrape_nested_structure e url depth max_depth s = Inr ([], logged (entered s url) url)"
  by (simp add: scrape_nested_structure.simps get_soup_def)

lemma nested_page_step:
  "url \<notin> visited_urls s \<Longrightarrow> depth \<le> max_depth \<Longrightarrow> page_at e s url = Some sp \<Longrightarrow>
   scrape_nested_structure e url depth max_depth s =
     nested_loop e depth max_depth (sp (level_selector depth)) (logged (entered s url) url)"
  by (simp add: scrape_nested_structure.simps get_soup_def)

lemma loop_skip:
  "get_text el = [] \<or> href el = None \<or>
     (\<exists>h u. href el = Some h \<and> resolve e BASE_URL h = Inr u \<and> u \<in> visited_urls s) \<Longrightarrow>
   nested_loop e depth max_depth (el # els) s = nested_loop e depth max_depth els s"
  by (auto simp: nested_loop.simps(2))

lemma loop_raise:
  "get_text el \<noteq> [] \<Longrightarrow> href el = Some h \<Longrightarrow> resolve e BASE_URL h = Inl err \<Longrightarrow>
   nested_loop e depth max_depth (el # els) s = Inl err"
  by (simp add: nested_loop.simps(2))

lemma loop_leaf:
  "get_text el \<noteq> [] \<Longrightarrow> href el = Some h \<Longrightarrow> resolve e BASE_URL h = Inr url \<Longrightarrow>
   url \<notin> visited_urls s \<Longrightarrow> \<not> depth < max_depth \<or> page_at e s url = None \<Longrightarrow>
   nested_loop e depth max_depth (el # els) s =
     (case nested_loop e depth max_depth els (logged s url) of
        Inl err \<Rightarrow> Inl err
      | Inr (rest, s') \<Rightarrow>
          Inr (Item (get_text el) url (Level_item (depth + 1)) (additional_info_of (page_at e s url))
                 None # rest, s'))"
  by (auto simp: nested_loop.simps(2) get_soup_def split: sum.splits)

lemma loop_nested:
  "get_text el \<noteq> [] \<Longrightarrow> href el = Some h \<Longrightarrow> resolve e BASE_URL h = Inr url \<Longrightarrow>
   url \<notin> visited_urls s \<Longrightarrow> depth < max_depth \<Longrightarrow> page_at e s url = Some sp \<Longrightarrow>
   has_nested_structure sp \<Longrightarrow>
   nested_loop e depth max_depth (el # els) s =
     (case scrape_nested_structure e url (depth + 1) max_depth (logged s url) of
        Inl err \<Rightarrow> Inl err
      | Inr (sub_items, s2) \<Rightarrow>
          (case nested_loop e depth max_depth els s2 of
             Inl err \<Rightarrow> Inl err
           | Inr (rest, s') \<Rightarrow>
               Inr (Item (get_text el) url (Level_item (depth + 1))
                      (extract_additional_info sp) (attach sub_items) # rest, s')))"
  by (auto simp: nested_loop.simps(2) get_soup_def split: sum.splits)

lemma loop_flat:
  "get_text el \<noteq> [] \<Longrightarrow> href el = Some h \<Longrightarrow> resolve e BASE_URL h = Inr url \<Longrightarrow>
   url \<notin> visited_urls s \<Longrightarrow> depth < max_depth \<Longrightarrow> page_at e s url = Some sp \<Longrightarrow>
   \<not> has_nested_structure sp \<Longrightarrow>
   nested_loop e depth max_depth (el # els) s =
     (case scrape_flat_structure e sp url (logged s url) of
        Inl err \<Rightarrow> Inl err
      | Inr (items, s2) \<Rightarrow>
          (case nested_loop e depth max_depth els s2 of
             Inl err \<Rightarrow> Inl err
           | Inr (rest, s') \<Rightarrow>
               Inr (Item (get_text el) url (Level_item (depth + 1))
                      (extract_additional_info sp) (attach items) # rest, s')))"
  by (auto simp: nested_loop.simps(2) get_soup_def split: sum.splits)

lemma nested_induct [case_names guard failed page nil skip raise leaf nested flat]:
  assumes guard: "\<And>e url depth max_depth s.
      url \<in> visited_urls s \<or> max_depth < depth \<Longrightarrow> P e url depth max_depth s"
    and failed: "\<And>e url depth max_depth s.
      url \<notin> visited_urls s \<Longrightarrow> depth \<le> max_depth \<Longrightarrow> page_at e s url = None \<Longrightarrow>
      P e url depth max_depth s"
    and page: "\<And>e url depth max_depth s sp.
      url \<notin> visited_urls s \<Longrightarrow> depth \<le> max_depth \<Longrightarrow> page_at e s url = Some sp \<Longrightarrow>
      Q e depth max_depth (sp (level_selector depth)) (logged (entered s url) url) \<Longrightarrow>
      P e url depth max_depth s"
    and nil: "\<And>e depth max_depth s. Q e depth max_depth [] s"
    and skip: "\<And>e depth max_depth el els s.
      get_text el = [] \<or> href el = None \<or>
        (\<exists>h u. href el = Some h \<and> resolve e BASE_URL h = Inr u \<and> u \<in> visited_urls s) \<Longrightarrow>
      Q e depth max_depth els s \<Longrightarrow> Q e depth max_depth (el # els) s"
    and raise: "\<And>e depth max_depth el els s h err.
      get_text el \<noteq> [] \<Longrightarrow> href el = Some h \<Longrightarrow> resolve e BASE_URL h = Inl err \<Longrightarrow>
      Q e depth max_depth (el # els) s"
    and leaf: "\<And>e depth max_depth el els s h url.
      get_text el \<noteq> [] \<Longrightarrow> href el = Some h \<Longrightarrow> resolve e BASE_URL h = Inr url \<Longrightarrow>
      url \<notin> visited_urls s \<Longrightarrow> \<not> depth < max_depth \<or> page_at e s url = None \<Longrightarrow>
      Q e depth max_depth els (logged s url) \<Longrightarrow> Q e depth max_depth (el # els) s"
    and nested: "\<And>e depth max_depth el els s h url sp.
      get_text el \<noteq> [] \<Longrightarrow> href el = Some h \<Longrightarrow> resolve e BASE_URL h = Inr url \<Longrightarrow>
      url \<notin> visited_urls s \<Longrightarrow> depth < max_depth \<Longrightarrow> page_at e s url = Some sp \<Longrightarrow>
      has_nested_structure sp \<Longrightarrow>
      P e url (depth + 1) max_depth (logged s url) \<Longrightarrow>
      (\<And>sub_items s2.
         scrape_nested_structure e url (depth + 1) max_depth (logged s url) =
           Inr (sub_items, s2) \<Longrightarrow> Q e depth max_depth els s2) \<Longrightarrow>
      Q e depth max_depth (el # els) s"
    and flat: "\<And>e depth max_depth el els s h url sp.
      get_text el \<noteq> [] \<Longrightarrow> href el = Some h \<Longrightarrow> resolve e BASE_URL h = Inr url \<Longrightarrow>
      url \<notin> visited_urls s \<Longrightarrow> depth < max_depth \<Longrightarrow> page_at e s url = Some sp \<Longrightarrow>
      \<not> has_nested_structure sp \<Longrightarrow>
      (\<And>items s2.
         scrape_flat_structure e sp url (logged s url) = Inr (items, s2) \<Longrightarrow>
         Q e depth max_depth els s2) \<Longrightarrow>
      Q e depth max_depth (el # els) s"
  shows "P e url depth max_depth s" and "Q e depth max_depth els s"
proof (induction e url depth max_depth s and e depth max_depth els s
       rule: scrape_nested_structure_nested_loop.induct)
  case (1 e url depth max_depth s)
  show ?case
  proof (cases "url \<in> visited_urls s \<or> max_depth < depth")
    case True
    then show ?thesis by (rule guard)
  next
    case False
    then have nv: "url \<notin> visited_urls s" and le: "depth \<le> max_depth" by auto
    show ?thesis
    proof (cases "page_at e s url")
      case None
      with nv le show ?thesis by (rule failed)
    next
      case (Some sp)
      have "Q e depth max_depth (sp (level_selector depth)) (logged (entered s url) url)"
        by (rule "1.IH" [OF False refl _ refl]) (simp add: get_soup_def Some)
      with nv le Some show ?thesis by (rule page)
    qed
  qed
next
  case (2 e depth max_depth s)
  show ?case by (rule nil)
next
  case (3 e depth max_depth el els s)
  show ?case
  proof (cases "get_text el = [] \<or> href el = None")
    case True
    then have "Q e depth max_depth els s"
      using "3.IH"(1,2) by auto
    with True show ?thesis by (intro skip) auto
  next
    case False
    then obtain h where t: "get_text el \<noteq> []" and h: "href el = Some h" by auto
    show ?thesis
    proof (cases "resolve e BASE_URL h")
      case (Inl err)
      with t h show ?thesis by (rule raise)
    next
      case (Inr url)
      show ?thesis
      proof (cases "url \<in> visited_urls s")
        case True
        from "3.IH"(3) [OF t h Inr True] have "Q e depth max_depth els s" .
        with t h Inr True show ?thesis by (intro skip) auto
      next
        case nv: False
        have gs: "(page_at e s url, logged s url) = get_soup e url s"
          by (simp add: get_soup_def)
        note ih_rec = "3.IH"(4) [OF t h Inr nv gs]
        note ih_rest = "3.IH"(5) [OF t h Inr nv gs]
        show ?thesis
        proof (cases "depth < max_depth")
          case False
          have "Q e depth max_depth els (logged s url)"
            by (rule ih_rest [of "(None, logged s url)"]) (simp_all add: False)
          with t h Inr nv False show ?thesis by (intro leaf) auto
        next
          case True
          show ?thesis
          proof (cases "page_at e s url")
            case None
            have "Q e depth max_depth els (logged s url)"
              by (rule ih_rest [of "(None, logged s url)"]) (simp_all add: True None)
            with t h Inr nv None show ?thesis by (intro leaf) auto
          next
            case (Some sp)
            show ?thesis
            proof (cases "has_nested_structure sp")
              case nst: True
              have p: "P e url (depth + 1) max_depth (logged s url)"
                by (rule ih_rec [OF True Some nst])
              have "Q e depth max_depth els s2"
                if "scrape_nested_structure e url (depth + 1) max_depth (logged s url) =
                      Inr (sub_items, s2)" for sub_items s2
                by (rule ih_rest [of "(attach sub_items, s2)"])
                   (simp_all add: True Some nst that)
              with t h Inr nv True Some nst p show ?thesis
                by (intro nested [where sp = sp and h = h and url = url])
            next
              case flt: False
              have "Q e depth max_depth els s2"
                if "scrape_flat_structure e sp url (logged s url) = Inr (items, s2)"
                for items s2
                by (rule ih_rest [of "(attach items, s2)"])
                   (simp_all add: True Some flt that)
              with t h Inr nv True Some flt show ?thesis
                by (intro flat [where sp = sp and h = h and url = url])
            qed
          qed
        qed
      qed
    qed
  qed
qed

lemma flat_skip:
  "get_text el = [] \<or> href el = None \<Longrightarrow>
   flat_loop e base (el # els) s = flat_loop e base els s"
  by auto

lemma flat_raise:
  "get_text el \<noteq> [] \<Longrightarrow> href el = Some h \<Longrightarrow> resolve e base h = Inl err \<Longrightarrow>
   flat_loop e base (el # els) s = Inl err"
  by simp

lemma flat_item_step:
  "get_text el \<noteq> [] \<Longrightarrow> href el = Some h \<Longrightarrow> resolve e base h = Inr url \<Longrightarrow>
   flat_loop e base (el # els) s =
     (case flat_loop e base els (logged s url) of
        Inl err \<Rightarrow> Inl err
      | Inr (rest, s') \<Rightarrow>
          Inr (Item (get_text el) url Flat_item (additional_info_of (page_at e s url)) None # rest,
               s'))"
  by (simp add: get_soup_def)

declare flat_loop.simps(2) [simp del]

lemma flat_induct [case_names nil skip raise item]:
  assumes nil: "\<And>s. F [] s"
    and skip: "\<And>el els s. get_text el = [] \<or> href el = None \<Longrightarrow> F els s \<Longrightarrow> F (el # els) s"
    and raise: "\<And>el els s h err. get_text el \<noteq> [] \<Longrightarrow> href el = Some h \<Longrightarrow>
      resolve e base h = Inl err \<Longrightarrow> F (el # els) s"
    and item: "\<And>el els s h url. get_text el \<noteq> [] \<Longrightarrow> href el = Some h \<Longrightarrow>
      resolve e base h = Inr url \<Longrightarrow> F els (logged s url) \<Longrightarrow> F (el # els) s"
  shows "F els s"
proof (induction els arbitrary: s)
  case Nil
  show ?case by (rule nil)
next
  case (Cons el els)
  show ?case
  proof (cases "get_text el = [] \<or> href el = None")
    case True
    then show ?thesis using Cons by (intro skip)
  next
    case False
    then obtain h where th: "get_text el \<noteq> []" "href el = Some h" by auto
    show ?thesis
    proof (cases "resolve e base h")
      case (Inl err)
      with th show ?thesis by (intro raise)
    next
      case (Inr url)
      with th show ?thesis using Cons by (intro item)
    qed
  qed
qed

lemma sub_skip:
  "find_h4 a = None \<or> href a = None \<Longrightarrow> sub_loop e (a # as) s = sub_loop e as s"
  by (auto split: option.splits)

lemma sub_raise:
  "find_h4 a = Some name \<Longrightarrow> href a = Some h \<Longrightarrow> resolve e BASE_URL h = Inl err \<Longrightarrow>
   sub_loop e (a # as) s = Inl err"
  by simp

lemma sub_failed:
  "find_h4 a = Some name \<Longrightarrow> href a = Some h \<Longrightarrow> resolve e BASE_URL h = Inr url \<Longrightarrow>
   page_at e s url = None \<Longrightarrow>
   sub_loop e (a # as) s = sub_loop e as (logged s url)"
  by (simp add: get_soup_def)

lemma sub_found:
  "find_h4 a = Some name \<Longrightarrow> href a = Some h \<Longrightarrow> resolve e BASE_URL h = Inr url \<Longrightarrow>
   page_at e s url = Some sp \<Longrightarrow>
   sub_loop e (a # as) s =
     (case (if has_nested_structure sp then scrape_nested_structure e url 0 3 (logged s url)
            else scrape_flat_structure e sp url (logged s url)) of
        Inl err \<Rightarrow> Inl err
      | Inr (items, s2) \<Rightarrow>
          (case sub_loop e as s2 of
             Inl err \<Rightarrow> Inl err
           | Inr (rest, s') \<Rightarrow>
               Inr (\<lparr>sub_name = name, sub_url = url, sub_type = Subcategory,
                     sub_info = extract_additional_info sp, units = attach items\<rparr> # rest,
                    s')))"
  by (simp add: get_soup_def)

declare sub_loop.simps(2) [simp del]

lemma sub_induct [case_names nil skip raise failed found]:
  assumes nil: "\<And>s. F [] s"
    and skip: "\<And>a as s. find_h4 a = None \<or> href a = None \<Longrightarrow> F as s \<Longrightarrow> F (a # as) s"
    and raise: "\<And>a as s name h err. find_h4 a = Some name \<Longrightarrow> href a = Some h \<Longrightarrow>
      resolve e BASE_URL h = Inl err \<Longrightarrow> F (a # as) s"
    and failed: "\<And>a as s name h url. find_h4 a = Some name \<Longrightarrow> href a = Some h \<Longrightarrow>
      resolve e BASE_URL h = Inr url \<Longrightarrow> page_at e s url = None \<Longrightarrow>
      F as (logged s url) \<Longrightarrow> F (a # as) s"
    and found: "\<And>a as s name h url sp. find_h4 a = Some name \<Longrightarrow> href a = Some h \<Longrightarrow>
      resolve e BASE_URL h = Inr url \<Longrightarrow> page_at e s url = Some sp \<Longrightarrow>
      (\<And>items s2.
         (if has_nested_structure sp then scrape_nested_structure e url 0 3 (logged s url)
          else scrape_flat_structure e sp url (logged s url)) = Inr (items, s2) \<Longrightarrow>
         F as s2) \<Longrightarrow>
      F (a # as) s"
  shows "F as s"
proof (induction as arbitrary: s)
  case Nil
  show ?case by (rule nil)
next
  case (Cons a as)
  show ?case
  proof (cases "find_h4 a = None \<or> href a = None")
    case True
    then show ?thesis using Cons by (intro skip)
  next
    case False
    then obtain name h where nh: "find_h4 a = Some name" "href a = Some h" by auto
    show ?thesis
    proof (cases "resolve e BASE_URL h")
      case (Inl err)
      with nh show ?thesis by (intro raise)
    next
      case (Inr url)
      show ?thesis
      proof (cases "page_at e s url")
        case None
        with nh Inr show ?thesis using Cons by (intro failed)
      next
        case (Some sp)
        with nh Inr show ?thesis using Cons by (intro found)
      qed
    qed
  qed
qed

lemma main_skip:
  "find_h4 a = None \<or> href a = None \<or>
     (\<exists>h u. href a = Some h \<and> resolve e BASE_URL h = Inr u \<and> u \<in> visited_urls s) \<Longrightarrow>
   main_loop e (a # as) s = main_loop e as s"
  by (auto split: option.splits)

lemma main_raise:
  "find_h4 a = Some name \<Longrightarrow> href a = Some h \<Longrightarrow> resolve e BASE_URL h = Inl err \<Longrightarrow>
   main_loop e (a # as) s = Inl err"
  by simp

lemma main_failed:
  "find_h4 a = Some name \<Longrightarrow> href a = Some h \<Longrightarrow> resolve e BASE_URL h = Inr url \<Longrightarrow>
   url \<notin> visited_urls s \<Longrightarrow> page_at e s url = None \<Longrightarrow>
   main_loop e (a # as) s = main_loop e as (logged s url)"
  by (simp add: get_soup_def)

lemma main_found:
  "find_h4 a = Some name \<Longrightarrow> href a = Some h \<Longrightarrow> resolve e BASE_URL h = Inr url \<Longrightarrow>
   url \<notin> visited_urls s \<Longrightarrow> page_at e s url = Some sp \<Longrightarrow>
   main_loop e (a # as) s =
     (case sub_loop e (sp anchor_with_heading) (logged s url) of
        Inl err \<Rightarrow> Inl err
      | Inr (subcats, s2) \<Rightarrow>
          (case main_loop e as (branch_done s2 url) of
             Inl err \<Rightarrow> Inl err
           | Inr (rest, s') \<Rightarrow>
               Inr (\<lparr>comp_name = name, comp_url = url, comp_type = Main_branch,
                     comp_info = extract_additional_info sp,
                     subcategories = attach subcats\<rparr> # rest,
                    s')))"
  by (simp add: get_soup_def)

declare main_loop.simps(2) [simp del]

lemma main_induct [case_names nil skip raise failed found]:
  assumes nil: "\<And>s. F [] s"
    and skip: "\<And>a as s. find_h4 a = None \<or> href a = None \<or>
        (\<exists>h u. href a = Some h \<and> resolve e BASE_URL h = Inr u \<and> u \<in> visited_urls s) \<Longrightarrow>
      F as s \<Longrightarrow> F (a # as) s"
    and raise: "\<And>a as s name h err. find_h4 a = Some name \<Longrightarrow> href a = Some h \<Longrightarrow>
      resolve e BASE_URL h = Inl err \<Longrightarrow> F (a # as) s"
    and failed: "\<And>a as s name h url. find_h4 a = Some name \<Longrightarrow> href a = Some h \<Longrightarrow>
      resolve e BASE_URL h = Inr url \<Longrightarrow> url \<notin> visited_urls s \<Longrightarrow>
      page_at e s url = None \<Longrightarrow> F as (logged s url) \<Longrightarrow> F (a # as) s"
    and found: "\<And>a as s name h url sp. find_h4 a = Some name \<Longrightarrow> href a = Some h \<Longrightarrow>
      resolve e BASE_URL h = Inr url \<Longrightarrow> url \<notin> visited_urls s \<Longrightarrow>
      page_at e s url = Some sp \<Longrightarrow>
      (\<And>subcats s2. sub_loop e (sp anchor_with_heading) (logged s url) = Inr (subcats, s2) \<Longrightarrow>
         F as (branch_done s2 url)) \<Longrightarrow>
      F (a # as) s"
  shows "F as s"
proof (induction as arbitrary: s)
  case Nil
  show ?case by (rule nil)
next
  case (Cons a as)
  show ?case
  proof (cases "find_h4 a = None \<or> href a = None")
    case True
    then show ?thesis using Cons by (intro skip) auto
  next
    case False
    then obtain name h where nh: "find_h4 a = Some name" "href a = Some h" by auto
    show ?thesis
    proof (cases "resolve e BASE_URL h")
      case (Inl err)
      with nh show ?thesis by (intro raise)
    next
      case (Inr url)
      show ?thesis
      proof (cases "url \<in> visited_urls s")
        case True
        with nh Inr show ?thesis using Cons by (intro skip) auto
      next
        case nv: False
        show ?thesis
        proof (cases "page_at e s url")
          case None
          with nh Inr nv show ?thesis using Cons by (intro failed)
        next
          case (Some sp)
          with nh Inr nv show ?thesis using Cons by (intro found)
        qed
      qed
    qed
  qed
qed

subsection \<open>What the passes keep\<close>

lemma flat_loop_frame:
  "flat_loop e base els s = Inr (r, s') \<Longrightarrow>
   visited_urls s' = visited_urls s \<and> added s' = added s \<and>
   fetched s' = fetched s @ map item_url r \<and> nodes r = r \<and>
   (\<forall>x\<in>set r. item_type x = Flat_item \<and> subunits x = None \<and> item_name x \<noteq> [])"
proof (induction els s arbitrary: r s' rule: flat_induct [where e = e and base = base])
  case (nil s)
  then show ?case by simp
next
  case (skip el els s)
  then show ?case by (simp add: flat_skip)
next
  case (raise el els s h err)
  then show ?case by (simp add: flat_raise)
next
  case (item el els s h url)
  from item.prems item.hyps obtain rest where
    rest: "flat_loop e base els (logged s url) = Inr (rest, s')"
    and r: "r = Item (get_text el) url Flat_item (additional_info_of (page_at e s url)) None # rest"
    by (auto simp: flat_item_step split: sum.splits)
  from item.IH [OF rest] r item.hyps show ?case by simp
qed

lemma flat_frame:
  "scrape_flat_structure e sp base s = Inr (r, s') \<Longrightarrow>
   visited_urls s' = visited_urls s \<and> added s' = added s \<and>
   fetched s' = fetched s @ map item_url r \<and> nodes r = r \<and>
   (\<forall>x\<in>set r. item_type x = Flat_item \<and> subunits x = None \<and> item_name x \<noteq> [])"
  unfolding scrape_flat_structure_def by (rule flat_loop_frame)

lemma nested_prefix:
  "scrape_nested_structure e url depth max_depth s = Inr (r, s') \<Longrightarrow>
     \<exists>ys. fetched s' = fetched s @ ys"
  "nested_loop e depth max_depth els s = Inr (r, s') \<Longrightarrow>
     \<exists>ys. fetched s' = fetched s @ ys"
proof (induction e url depth max_depth s and e depth max_depth els s
       arbitrary: r s' and r s' rule: nested_induct)
  case (guard e url depth max_depth s)
  then show ?case by (simp add: nested_guard)
next
  case (failed e url depth max_depth s)
  then show ?case by (auto simp: nested_failed)
next
  case (page e url depth max_depth s sp)
  from page.prems page.hyps page.IH [of r s'] show ?case
    by (auto simp: nested_page_step)
next
  case (nil e depth max_depth s)
  then show ?case by simp
next
  case (skip e depth max_depth el els s)
  from skip.prems skip.hyps skip.IH [of r s'] show ?case
    by (simp add: loop_skip)
next
  case (raise e depth max_depth el els s h err)
  then show ?case by (simp add: loop_raise)
next
  case (leaf e depth max_depth el els s h url)
  from leaf.prems leaf.hyps obtain rest where
    "nested_loop e depth max_depth els (logged s url) = Inr (rest, s')"
    by (auto simp: loop_leaf split: sum.splits)
  from leaf.IH [OF this] show ?case by auto
next
  case (nested e depth max_depth el els s h url sp)
  from nested.prems nested.hyps obtain sub_items s2 rest where
    a: "scrape_nested_structure e url (depth + 1) max_depth (logged s url) = Inr (sub_items, s2)"
    and b: "nested_loop e depth max_depth els s2 = Inr (rest, s')"
    by (auto simp: loop_nested split: sum.splits)
  from nested.IH(1) [OF a] nested.IH(2) [OF a b] show ?case by auto
next
  case (flat e depth max_depth el els s h url sp)
  from flat.prems flat.hyps obtain items s2 rest where
    a: "scrape_flat_structure e sp url (logged s url) = Inr (items, s2)"
    and b: "nested_loop e depth max_depth els s2 = Inr (rest, s')"
    by (auto simp: loop_flat split: sum.splits)
  from flat_frame [OF a] flat.IH [OF a b] show ?case by auto
qed


lemma loop_leaf_Inr:
  assumes "get_text el \<noteq> []" "href el = Some h" "resolve e BASE_URL h = Inr url"
    "url \<notin> visited_urls s" "\<not> depth < max_depth \<or> page_at e s url = None"
    "nested_loop e depth max_depth (el # els) s = Inr (r, s')"
  obtains rest where "nested_loop e depth max_depth els (logged s url) = Inr (rest, s')"
    "r = Item (get_text el) url (Level_item (depth + 1)) (additional_info_of (page_at e s url)) None # rest"
  using assms by (auto simp: loop_leaf split: sum.splits)

lemma loop_nested_Inr:
  assumes "get_text el \<noteq> []" "href el = Some h" "resolve e BASE_URL h = Inr url"
    "url \<notin> visited_urls s" "depth < max_depth" "page_at e s url = Some sp"
    "has_nested_structure sp"
    "nested_loop e depth max_depth (el # els) s = Inr (r, s')"
  obtains sub_items s2 rest where
    "scrape_nested_structure e url (depth + 1) max_depth (logged s url) = Inr (sub_items, s2)"
    "nested_loop e depth max_depth els s2 = Inr (rest, s')"
    "r = Item (get_text el) url (Level_item (depth + 1)) (extract_additional_info sp)
           (attach sub_items) # rest"
  using assms by (auto simp: loop_nested split: sum.splits)

lemma loop_flat_Inr:
  assumes "get_text el \<noteq> []" "href el = Some h" "resolve e BASE_URL h = Inr url"
    "url \<notin> visited_urls s" "depth < max_depth" "page_at e s url = Some sp"
    "\<not> has_nested_structure sp"
    "nested_loop e depth max_depth (el # els) s = Inr (r, s')"
  obtains items s2 rest where
    "scrape_flat_structure e sp url (logged s url) = Inr (items, s2)"
    "nested_loop e depth max_depth els s2 = Inr (rest, s')"
    "r = Item (get_text el) url (Level_item (depth + 1)) (extract_additional_info sp)
           (attach items) # rest"
  using assms by (auto simp: loop_flat split: sum.splits)

lemma level_urls_Nil [simp]: "level_urls [] = {}"
  by (simp add: level_urls_def)

lemma level_urls_Cons [simp]:
  "level_urls (Item n u (Level_item k) i subs # xs) =
     insert u (level_urls (get_list subs) \<union> level_urls xs)"
proof -
  have "{y \<in> set (nodes (Item n u (Level_item k) i subs # xs)). item_type y \<noteq> Flat_item} =
      insert (Item n u (Level_item k) i subs)
        ({y \<in> set (nodes (get_list subs)). item_type y \<noteq> Flat_item} \<union>
         {y \<in> set (nodes xs). item_type y \<noteq> Flat_item})"
    by auto
  then show ?thesis
    by (simp add: level_urls_def image_Un)
qed

lemma level_urls_flat:
  "\<forall>x\<in>set r. item_type x = Flat_item \<Longrightarrow> nodes r = r \<Longrightarrow> level_urls r = {}"
  by (auto simp: level_urls_def)

lemma level_urls_attach [simp]: "level_urls (get_list (attach xs)) = level_urls xs"
  by (simp add: level_urls_def)

lemma nested_entries:
  "scrape_nested_structure e url depth max_depth s = Inr (r, s') \<Longrightarrow>
     \<exists>us. added s' = added s @ map Nested_entry us \<and> distinct us \<and>
          set us \<inter> visited_urls s = {} \<and> visited_urls s' = visited_urls s \<union> set us \<and>
          set us \<subseteq> insert url (level_urls r) \<and>
          (url \<notin> visited_urls s \<and> depth \<le> max_depth \<longrightarrow> (\<exists>vs. us = url # vs))"
  "nested_loop e depth max_depth els s = Inr (r, s') \<Longrightarrow>
     \<exists>us. added s' = added s @ map Nested_entry us \<and> distinct us \<and>
          set us \<inter> visited_urls s = {} \<and> visited_urls s' = visited_urls s \<union> set us \<and>
          set us \<subseteq> level_urls r"
proof (induction e url depth max_depth s and e depth max_depth els s
       arbitrary: r s' and r s' rule: nested_induct)
  case (guard e url depth max_depth s)
  then show ?case by (auto simp: nested_guard)
next
  case (failed e url depth max_depth s)
  then have "r = []" "s' = logged (entered s url) url"
    by (simp_all add: nested_failed)
  then show ?case
    using failed.hyps by (intro exI [where x = "[url]"]) simp
next
  case (page e url depth max_depth s sp)
  from page.prems page.hyps
  have "nested_loop e depth max_depth (sp (level_selector depth)) (logged (entered s url) url) =
      Inr (r, s')"
    by (simp add: nested_page_step)
  from page.IH [OF this] obtain us where us:
    "added s' = added s @ Nested_entry url # map Nested_entry us" "distinct us"
    "set us \<inter> insert url (visited_urls s) = {}"
    "visited_urls s' = insert url (visited_urls s) \<union> set us" "set us \<subseteq> level_urls r"
    by auto
  show ?case
    using us page.hyps by (intro exI [where x = "url # us"]) auto
next
  case (nil e depth max_depth s)
  then show ?case by simp
next
  case (skip e depth max_depth el els s)
  from skip.prems skip.hyps skip.IH [of r s'] show ?case
    by (simp add: loop_skip)
next
  case (raise e depth max_depth el els s h err)
  then show ?case by (simp add: loop_raise)
next
  case (leaf e depth max_depth el els s h url)
  from leaf.hyps leaf.prems obtain rest where
    rest: "nested_loop e depth max_depth els (logged s url) = Inr (rest, s')"
    and r: "r = Item (get_text el) url (Level_item (depth + 1))
                  (additional_info_of (page_at e s url)) None # rest"
    by (rule loop_leaf_Inr)
  from leaf.IH [OF rest] obtain us where
    "added s' = added s @ map Nested_entry us" "distinct us"
    "set us \<inter> visited_urls s = {}" "visited_urls s' = visited_urls s \<union> set us"
    "set us \<subseteq> level_urls rest"
    by auto
  then show ?case
    unfolding r by (intro exI [where x = us]) auto
next
  case (nested e depth max_depth el els s h url sp)
  from nested.hyps nested.prems obtain sub_items s2 rest where
    a: "scrape_nested_structure e url (depth + 1) max_depth (logged s url) = Inr (sub_items, s2)"
    and b: "nested_loop e depth max_depth els s2 = Inr (rest, s')"
    and r: "r = Item (get_text el) url (Level_item (depth + 1)) (extract_additional_info sp)
                  (attach sub_items) # rest"
    by (rule loop_nested_Inr)
  from nested.IH(1) [OF a] obtain us1 where us1:
    "added s2 = added s @ map Nested_entry us1" "distinct us1"
    "set us1 \<inter> visited_urls s = {}" "visited_urls s2 = visited_urls s \<union> set us1"
    "set us1 \<subseteq> insert url (level_urls sub_items)"
    by auto
  from nested.IH(2) [OF a b] obtain us2 where us2:
    "added s' = added s2 @ map Nested_entry us2" "distinct us2"
    "set us2 \<inter> visited_urls s2 = {}" "visited_urls s' = visited_urls s2 \<union> set us2"
    "set us2 \<subseteq> level_urls rest"
    by auto
  show ?case
    unfolding r using us1 us2 by (intro exI [where x = "us1 @ us2"]) auto
next
  case (flat e depth max_depth el els s h url sp)
  from flat.hyps flat.prems obtain items s2 rest where
    a: "scrape_flat_structure e sp url (logged s url) = Inr (items, s2)"
    and b: "nested_loop e depth max_depth els s2 = Inr (rest, s')"
    and r: "r = Item (get_text el) url (Level_item (depth + 1)) (extract_additional_info sp)
                  (attach items) # rest"
    by (rule loop_flat_Inr)
  from flat_frame [OF a] have s2: "visited_urls s2 = visited_urls s" "added s2 = added s"
    by simp_all
  from flat.IH [OF a b] obtain us where
    "added s' = added s @ map Nested_entry us" "distinct us"
    "set us \<inter> visited_urls s = {}" "visited_urls s' = visited_urls s \<union> set us"
    "set us \<subseteq> level_urls rest"
    by (auto simp: s2)
  then show ?case
    unfolding r by (intro exI [where x = us]) auto
qed

lemma levels_leaf: "subunits x = None \<Longrightarrow> 0 < k \<Longrightarrow> levels k x"
  by (cases k) simp_all

lemma kind_within_widen:
  "kind_within lo hi k \<Longrightarrow> lo' \<le> lo \<Longrightarrow> kind_within lo' hi k"
  by (auto simp: kind_within_def split: kind.splits)

text \<open>One induction for the properties of the returned nodes.\<close>

lemma nested_tree:
  "scrape_nested_structure e url depth max_depth s = Inr (r, s') \<Longrightarrow>
     (\<forall>x\<in>set r. item_type x = Level_item (depth + 1)) \<and>
     (\<forall>y\<in>set (nodes r). subunits y \<noteq> Some [] \<and> item_name y \<noteq> [] \<and>
        kind_within (depth + 1) (max_depth + 1) (item_type y)) \<and>
     list_all (levels (nat (max_depth - depth + 1))) r"
  "nested_loop e depth max_depth els s = Inr (r, s') \<Longrightarrow> depth \<le> max_depth \<Longrightarrow>
     (\<forall>x\<in>set r. item_type x = Level_item (depth + 1)) \<and>
     (\<forall>y\<in>set (nodes r). subunits y \<noteq> Some [] \<and> item_name y \<noteq> [] \<and>
        kind_within (depth + 1) (max_depth + 1) (item_type y)) \<and>
     list_all (levels (nat (max_depth - depth + 1))) r"
proof (induction e url depth max_depth s and e depth max_depth els s
       arbitrary: r s' and r s' rule: nested_induct)
  case (guard e url depth max_depth s)
  then show ?case by (auto simp: nested_guard)
next
  case (failed e url depth max_depth s)
  then show ?case by (auto simp: nested_failed)
next
  case (page e url depth max_depth s sp)
  from page.prems page.hyps
  have "nested_loop e depth max_depth (sp (level_selector depth)) (logged (entered s url) url) =
      Inr (r, s')"
    by (simp add: nested_page_step)
  from page.IH [OF this page.hyps(2)] show ?case .
next
  case (nil e depth max_depth s)
  then show ?case by simp
next
  case (skip e depth max_depth el els s)
  from skip.prems skip.hyps skip.IH [of r s'] show ?case
    by (simp add: loop_skip)
next
  case (raise e depth max_depth el els s h err)
  then show ?case by (simp add: loop_raise)
next
  case (leaf e depth max_depth el els s h url)
  from leaf.hyps leaf.prems(1) obtain rest where
    rest: "nested_loop e depth max_depth els (logged s url) = Inr (rest, s')"
    and r: "r = Item (get_text el) url (Level_item (depth + 1))
                  (additional_info_of (page_at e s url)) None # rest"
    by (rule loop_leaf_Inr)
  have k: "kind_within (depth + 1) (max_depth + 1) (Level_item (depth + 1))"
    using leaf.prems(2) by (simp add: kind_within_def)
  have l: "levels (nat (max_depth - depth + 1))
      (Item (get_text el) url (Level_item (depth + 1)) (additional_info_of (page_at e s url)) None)"
    using leaf.prems(2) by (intro levels_leaf) simp_all
  from leaf.IH [OF rest leaf.prems(2)] k l leaf.hyps(1) show ?case
    unfolding r by simp
next
  case (nested e depth max_depth el els s h url sp)
  from nested.hyps nested.prems(1) obtain sub_items s2 rest where
    a: "scrape_nested_structure e url (depth + 1) max_depth (logged s url) = Inr (sub_items, s2)"
    and b: "nested_loop e depth max_depth els s2 = Inr (rest, s')"
    and r: "r = Item (get_text el) url (Level_item (depth + 1)) (extract_additional_info sp)
                  (attach sub_items) # rest"
    by (rule loop_nested_Inr)
  note sub = nested.IH(1) [OF a]
  note rst = nested.IH(2) [OF a b nested.prems(2)]
  have k: "kind_within (depth + 1) (max_depth + 1) (Level_item (depth + 1))"
    using nested.prems(2) by (simp add: kind_within_def)
  have ks: "\<forall>y\<in>set (nodes sub_items). subunits y \<noteq> Some [] \<and> item_name y \<noteq> [] \<and>
      kind_within (depth + 1) (max_depth + 1) (item_type y)"
  proof
    fix y
    assume y: "y \<in> set (nodes sub_items)"
    have le: "depth + 1 \<le> depth + 1 + 1" by simp
    from sub y have "subunits y \<noteq> Some [] \<and> item_name y \<noteq> [] \<and>
        kind_within (depth + 1 + 1) (max_depth + 1) (item_type y)"
      by blast
    then show "subunits y \<noteq> Some [] \<and> item_name y \<noteq> [] \<and>
        kind_within (depth + 1) (max_depth + 1) (item_type y)"
      using kind_within_widen [OF _ le] by blast
  qed
  have n: "nat (max_depth - depth + 1) = Suc (nat (max_depth - (depth + 1) + 1))"
    using nested.hyps(5) by simp
  have "list_all (levels (nat (max_depth - (depth + 1) + 1))) (get_list (attach sub_items))"
    using sub by (simp add: attach_def get_list_def)
  then have l: "levels (nat (max_depth - depth + 1))
      (Item (get_text el) url (Level_item (depth + 1)) (extract_additional_info sp)
         (attach sub_items))"
    unfolding n by simp
  from rst k ks l nested.hyps(1) show ?case
    unfolding r by auto
next
  case (flat e depth max_depth el els s h url sp)
  from flat.hyps flat.prems(1) obtain items s2 rest where
    a: "scrape_flat_structure e sp url (logged s url) = Inr (items, s2)"
    and b: "nested_loop e depth max_depth els s2 = Inr (rest, s')"
    and r: "r = Item (get_text el) url (Level_item (depth + 1)) (extract_additional_info sp)
                  (attach items) # rest"
    by (rule loop_flat_Inr)
  note fl = flat_frame [OF a]
  note rst = flat.IH [OF a b flat.prems(2)]
  have k: "kind_within (depth + 1) (max_depth + 1) (Level_item (depth + 1))"
    using flat.prems(2) by (simp add: kind_within_def)
  have ks: "\<forall>y\<in>set (nodes items). subunits y \<noteq> Some [] \<and> item_name y \<noteq> [] \<and>
      kind_within (depth + 1) (max_depth + 1) (item_type y)"
    using fl by (simp add: kind_within_def)
  have n: "nat (max_depth - depth + 1) = Suc (nat (max_depth - (depth + 1) + 1))"
    using flat.hyps(5) by simp
  have "list_all (levels (nat (max_depth - (depth + 1) + 1))) (get_list (attach items))"
    using fl flat.hyps(5)
    by (auto simp: list_all_iff attach_def get_list_def intro!: levels_leaf)
  then have l: "levels (nat (max_depth - depth + 1))
      (Item (get_text el) url (Level_item (depth + 1)) (extract_additional_info sp)
         (attach items))"
    unfolding n by simp
  from rst k ks l flat.hyps(1) show ?case
    unfolding r by auto
qed

lemma loop_at_limit:
  "nested_loop e max_depth max_depth els s = Inr (r, s') \<Longrightarrow>
   (\<forall>x\<in>set r. subunits x = None) \<and> fetched s' = fetched s @ map item_url r"
proof (induction els arbitrary: s r)
  case Nil
  then show ?case by simp
next
  case (Cons el els)
  show ?case
  proof (cases "get_text el = [] \<or> href el = None")
    case True
    then have "nested_loop e max_depth max_depth (el # els) s =
        nested_loop e max_depth max_depth els s"
      by (intro loop_skip) auto
    with Cons.prems have "nested_loop e max_depth max_depth els s = Inr (r, s')" by simp
    from Cons.IH [OF this] show ?thesis .
  next
    case False
    then obtain h where th: "get_text el \<noteq> []" "href el = Some h" by auto
    show ?thesis
    proof (cases "resolve e BASE_URL h")
      case (Inl err)
      with th Cons.prems show ?thesis by (simp add: loop_raise)
    next
      case (Inr url)
      show ?thesis
      proof (cases "url \<in> visited_urls s")
        case True
        with th Inr have "nested_loop e max_depth max_depth (el # els) s =
            nested_loop e max_depth max_depth els s"
          by (intro loop_skip) auto
        with Cons.prems have "nested_loop e max_depth max_depth els s = Inr (r, s')" by simp
        from Cons.IH [OF this] show ?thesis .
      next
        case False
        with th Inr Cons.prems obtain rest where
          rest: "nested_loop e max_depth max_depth els (logged s url) = Inr (rest, s')"
          and r: "r = Item (get_text el) url (Level_item (max_depth + 1))
                        (additional_info_of (page_at e s url)) None # rest"
          by (auto elim!: loop_leaf_Inr [where h = h and url = url, rotated -1])
        from Cons.IH [OF rest] show ?thesis
          unfolding r by simp
      qed
    qed
  qed
qed

lemma nested_at_limit:
  assumes "scrape_nested_structure e url max_depth max_depth s = Inr (r, s')"
    and "url \<notin> visited_urls s"
  shows "(\<forall>x\<in>set r. subunits x = None) \<and> fetched s' = fetched s @ url # map item_url r"
proof (cases "page_at e s url")
  case None
  with assms show ?thesis by (auto simp: nested_failed)
next
  case (Some sp)
  with assms have "nested_loop e max_depth max_depth (sp (level_selector max_depth))
      (logged (entered s url) url) = Inr (r, s')"
    by (simp add: nested_page_step)
  from loop_at_limit [OF this] show ?thesis by simp
qed

lemma nested_fetched_nodes:
  "scrape_nested_structure e url depth max_depth s = Inr (r, s') \<Longrightarrow>
     set (fetched s') \<subseteq> set (fetched s) \<union> {url} \<union> item_url ` set (nodes r)"
  "nested_loop e depth max_depth els s = Inr (r, s') \<Longrightarrow>
     set (fetched s') \<subseteq> set (fetched s) \<union> item_url ` set (nodes r)"
proof (induction e url depth max_depth s and e depth max_depth els s
       arbitrary: r s' and r s' rule: nested_induct)
  case (guard e url depth max_depth s)
  then show ?case by (auto simp: nested_guard)
next
  case (failed e url depth max_depth s)
  then show ?case by (auto simp: nested_failed)
next
  case (page e url depth max_depth s sp)
  from page.prems page.hyps
  have "nested_loop e depth max_depth (sp (level_selector depth)) (logged (entered s url) url) =
      Inr (r, s')"
    by (simp add: nested_page_step)
  from page.IH [OF this] show ?case by auto
next
  case (nil e depth max_depth s)
  then show ?case by simp
next
  case (skip e depth max_depth el els s)
  from skip.prems skip.hyps skip.IH [of r s'] show ?case
    by (simp add: loop_skip)
next
  case (raise e depth max_depth el els s h err)
  then show ?case by (simp add: loop_raise)
next
  case (leaf e depth max_depth el els s h url)
  from leaf.hyps leaf.prems obtain rest where
    rest: "nested_loop e depth max_depth els (logged s url) = Inr (rest, s')"
    and r: "r = Item (get_text el) url (Level_item (depth + 1))
                  (additional_info_of (page_at e s url)) None # rest"
    by (rule loop_leaf_Inr)
  from leaf.IH [OF rest] show ?case
    unfolding r by auto
next
  case (nested e depth max_depth el els s h url sp)
  from nested.hyps nested.prems obtain sub_items s2 rest where
    a: "scrape_nested_structure e url (depth + 1) max_depth (logged s url) = Inr (sub_items, s2)"
    and b: "nested_loop e depth max_depth els s2 = Inr (rest, s')"
    and r: "r = Item (get_text el) url (Level_item (depth + 1)) (extract_additional_info sp)
                  (attach sub_items) # rest"
    by (rule loop_nested_Inr)
  from nested.IH(1) [OF a] nested.IH(2) [OF a b] show ?case
    unfolding r by simp blast
next
  case (flat e depth max_depth el els s h url sp)
  from flat.hyps flat.prems obtain items s2 rest where
    a: "scrape_flat_structure e sp url (logged s url) = Inr (items, s2)"
    and b: "nested_loop e depth max_depth els s2 = Inr (rest, s')"
    and r: "r = Item (get_text el) url (Level_item (depth + 1)) (extract_additional_info sp)
                  (attach items) # rest"
    by (rule loop_flat_Inr)
  have "set (fetched s2) \<subseteq> set (fetched s) \<union> {url} \<union> item_url ` set (nodes items)"
    using flat_frame [OF a] by auto
  with flat.IH [OF a b] show ?case
    unfolding r by simp blast
qed

lemma nested_no_revisit:
  "scrape_nested_structure e url depth max_depth s = Inr (r, s') \<Longrightarrow>
     level_urls r \<inter> insert url (visited_urls s) = {}"
  "nested_loop e depth max_depth els s = Inr (r, s') \<Longrightarrow>
     level_urls r \<inter> visited_urls s = {}"
proof (induction e url depth max_depth s and e depth max_depth els s
       arbitrary: r s' and r s' rule: nested_induct)
  case (guard e url depth max_depth s)
  then show ?case by (auto simp: nested_guard)
next
  case (failed e url depth max_depth s)
  then show ?case by (auto simp: nested_failed)
next
  case (page e url depth max_depth s sp)
  from page.prems page.hyps
  have "nested_loop e depth max_depth (sp (level_selector depth)) (logged (entered s url) url) =
      Inr (r, s')"
    by (simp add: nested_page_step)
  from page.IH [OF this] show ?case by simp
next
  case (nil e depth max_depth s)
  then show ?case by simp
next
  case (skip e depth max_depth el els s)
  from skip.prems skip.hyps skip.IH [of r s'] show ?case
    by (simp add: loop_skip)
next
  case (raise e depth max_depth el els s h err)
  then show ?case by (simp add: loop_raise)
next
  case (leaf e depth max_depth el els s h url)
  from leaf.hyps leaf.prems obtain rest where
    rest: "nested_loop e depth max_depth els (logged s url) = Inr (rest, s')"
    and r: "r = Item (get_text el) url (Level_item (depth + 1))
                  (additional_info_of (page_at e s url)) None # rest"
    by (rule loop_leaf_Inr)
  from leaf.IH [OF rest] leaf.hyps(4) show ?case
    unfolding r by simp
next
  case (nested e depth max_depth el els s h url sp)
  from nested.hyps nested.prems obtain sub_items s2 rest where
    a: "scrape_nested_structure e url (depth + 1) max_depth (logged s url) = Inr (sub_items, s2)"
    and b: "nested_loop e depth max_depth els s2 = Inr (rest, s')"
    and r: "r = Item (get_text el) url (Level_item (depth + 1)) (extract_additional_info sp)
                  (attach sub_items) # rest"
    by (rule loop_nested_Inr)
  have "visited_urls s \<subseteq> visited_urls s2"
    using nested_entries(1) [OF a] by auto
  with nested.IH(1) [OF a] nested.IH(2) [OF a b] nested.hyps(4) show ?case
    unfolding r by auto
next
  case (flat e depth max_depth el els s h url sp)
  from flat.hyps flat.prems obtain items s2 rest where
    a: "scrape_flat_structure e sp url (logged s url) = Inr (items, s2)"
    and b: "nested_loop e depth max_depth els s2 = Inr (rest, s')"
    and r: "r = Item (get_text el) url (Level_item (depth + 1)) (extract_additional_info sp)
                  (attach items) # rest"
    by (rule loop_flat_Inr)
  note fl = flat_frame [OF a]
  have "level_urls items = {}"
    using fl by (intro level_urls_flat) auto
  with flat.IH [OF a b] fl flat.hyps(4) show ?case
    unfolding r by simp
qed

lemma loop_fetches_twice:
  assumes "get_text el \<noteq> []" "href el = Some h" "resolve e BASE_URL h = Inr url"
    "url \<notin> visited_urls s" "depth < max_depth" "page_at e s url = Some sp"
    "has_nested_structure sp"
    "nested_loop e depth max_depth (el # els) s = Inr (r, s')"
  shows "\<exists>ys. fetched s' = fetched s @ url # url # ys"
proof -
  from assms obtain sub_items s2 rest where
    a: "scrape_nested_structure e url (depth + 1) max_depth (logged s url) = Inr (sub_items, s2)"
    and b: "nested_loop e depth max_depth els s2 = Inr (rest, s')"
    by (rule loop_nested_Inr)
  have "\<exists>ys. fetched s2 = fetched s @ url # url # ys"
  proof (cases "page_at e (logged s url) url")
    case None
    with a assms(4,5) show ?thesis by (auto simp: nested_failed)
  next
    case (Some sp2)
    with a assms(4,5) have "nested_loop e (depth + 1) max_depth (sp2 (level_selector (depth + 1)))
        (logged (entered (logged s url) url) url) = Inr (sub_items, s2)"
      by (simp add: nested_page_step)
    from nested_prefix(2) [OF this] show ?thesis by auto
  qed
  with nested_prefix(2) [OF b] show ?thesis by auto
qed

lemma unit_urls_simps [simp]:
  "unit_urls [] = {}"
  "unit_urls (sc # scs) =
     insert (sub_url sc) (level_urls (get_list (units sc))) \<union> unit_urls scs"
  by (simp_all add: unit_urls_def)

lemma unit_urls_attach [simp]: "unit_urls (get_list (attach xs)) = unit_urls xs"
  by (simp add: attach_def get_list_def)

text \<open>The units of one subcategory: a nested pass or a flat extraction.\<close>

lemma found_props:
  assumes r: "(if has_nested_structure sp then scrape_nested_structure e url 0 3 (logged s url)
               else scrape_flat_structure e sp url (logged s url)) = Inr (items, s2)"
  shows "(\<exists>ys. fetched s2 = fetched s @ url # ys) \<and>
         (\<exists>us. added s2 = added s @ map Nested_entry us \<and> distinct us \<and>
            set us \<inter> visited_urls s = {} \<and> visited_urls s2 = visited_urls s \<union> set us \<and>
            set us \<subseteq> insert url (level_urls items) \<and>
            (has_nested_structure sp \<and> url \<notin> visited_urls s \<longrightarrow> url \<in> set us) \<and>
            (\<not> has_nested_structure sp \<longrightarrow> us = [])) \<and>
         (\<forall>y\<in>set (nodes items). subunits y \<noteq> Some [])"
proof (cases "has_nested_structure sp")
  case True
  with r have a: "scrape_nested_structure e url 0 3 (logged s url) = Inr (items, s2)" by simp
  from nested_prefix(1) [OF a] have 1: "\<exists>ys. fetched s2 = fetched s @ url # ys" by auto
  from nested_entries(1) [OF a] obtain us where
    "added s2 = added s @ map Nested_entry us" "distinct us" "set us \<inter> visited_urls s = {}"
    "visited_urls s2 = visited_urls s \<union> set us" "set us \<subseteq> insert url (level_urls items)"
    "url \<notin> visited_urls s \<longrightarrow> (\<exists>vs. us = url # vs)"
    by auto
  then have 2: "\<exists>us. added s2 = added s @ map Nested_entry us \<and> distinct us \<and>
            set us \<inter> visited_urls s = {} \<and> visited_urls s2 = visited_urls s \<union> set us \<and>
            set us \<subseteq> insert url (level_urls items) \<and>
            (has_nested_structure sp \<and> url \<notin> visited_urls s \<longrightarrow> url \<in> set us) \<and>
            (\<not> has_nested_structure sp \<longrightarrow> us = [])"
    using True by (intro exI [where x = us]) auto
  from nested_tree(1) [OF a] have 3: "\<forall>y\<in>set (nodes items). subunits y \<noteq> Some []" by blast
  from 1 2 3 show ?thesis by blast
next
  case False
  with r have a: "scrape_flat_structure e sp url (logged s url) = Inr (items, s2)" by simp
  note fl = flat_frame [OF a]
  from fl have 1: "\<exists>ys. fetched s2 = fetched s @ url # ys" by simp
  have 2: "\<exists>us. added s2 = added s @ map Nested_entry us \<and> distinct us \<and>
            set us \<inter> visited_urls s = {} \<and> visited_urls s2 = visited_urls s \<union> set us \<and>
            set us \<subseteq> insert url (level_urls items) \<and>
            (has_nested_structure sp \<and> url \<notin> visited_urls s \<longrightarrow> url \<in> set us) \<and>
            (\<not> has_nested_structure sp \<longrightarrow> us = [])"
    using fl False by (intro exI [where x = "[]"]) simp
  from fl have 3: "\<forall>y\<in>set (nodes items). subunits y \<noteq> Some []" by simp
  from 1 2 3 show ?thesis by blast
qed

lemma sub_found_Inr:
  assumes "find_h4 a = Some name" "href a = Some h" "resolve e BASE_URL h = Inr url"
    "page_at e s url = Some sp" "sub_loop e (a # as) s = Inr (r, s')"
  obtains items s2 rest where
    "(if has_nested_structure sp then scrape_nested_structure e url 0 3 (logged s url)
      else scrape_flat_structure e sp url (logged s url)) = Inr (items, s2)"
    "sub_loop e as s2 = Inr (rest, s')"
    "r = \<lparr>sub_name = name, sub_url = url, sub_type = Subcategory,
          sub_info = extract_additional_info sp, units = attach items\<rparr> # rest"
  using assms by (auto simp: sub_found split: sum.splits)

lemma sub_loop_frame:
  "sub_loop e as s = Inr (r, s') \<Longrightarrow>
   (\<exists>ys. fetched s' = fetched s @ ys) \<and>
   (\<exists>us. added s' = added s @ map Nested_entry us \<and> distinct us \<and>
      set us \<inter> visited_urls s = {} \<and> visited_urls s' = visited_urls s \<union> set us \<and>
      set us \<subseteq> unit_urls r) \<and>
   (\<forall>sc\<in>set r. units sc \<noteq> Some [] \<and>
      (\<forall>y\<in>set (nodes (get_list (units sc))). subunits y \<noteq> Some []))"
proof (induction as s arbitrary: r s' rule: sub_induct [where e = e])
  case (nil s)
  then show ?case by simp
next
  case (skip a as s)
  from skip.prems skip.hyps skip.IH [of r s'] show ?case by (simp add: sub_skip)
next
  case (raise a as s name h err)
  then show ?case by (simp add: sub_raise)
next
  case (failed a as s name h url)
  from failed.prems failed.hyps have "sub_loop e as (logged s url) = Inr (r, s')"
    by (simp add: sub_failed)
  from failed.IH [OF this] show ?case by auto
next
  case (found a as s name h url sp)
  from found.hyps found.prems obtain items s2 rest where
    a: "(if has_nested_structure sp then scrape_nested_structure e url 0 3 (logged s url)
         else scrape_flat_structure e sp url (logged s url)) = Inr (items, s2)"
    and b: "sub_loop e as s2 = Inr (rest, s')"
    and r: "r = \<lparr>sub_name = name, sub_url = url, sub_type = Subcategory,
          sub_info = extract_additional_info sp, units = attach items\<rparr> # rest"
    by (rule sub_found_Inr)
  note fp = found_props [OF a]
  note ih = found.IH [OF a b]
  from fp obtain ys1 where ys1: "fetched s2 = fetched s @ url # ys1" by blast
  from ih obtain ys2 where ys2: "fetched s' = fetched s2 @ ys2" by blast
  from fp obtain us1 where us1:
    "added s2 = added s @ map Nested_entry us1" "distinct us1"
    "set us1 \<inter> visited_urls s = {}" "visited_urls s2 = visited_urls s \<union> set us1"
    "set us1 \<subseteq> insert url (level_urls items)"
    by blast
  from ih obtain us2 where us2:
    "added s' = added s2 @ map Nested_entry us2" "distinct us2"
    "set us2 \<inter> visited_urls s2 = {}" "visited_urls s' = visited_urls s2 \<union> set us2"
    "set us2 \<subseteq> unit_urls rest"
    by blast
  have 1: "\<exists>ys. fetched s' = fetched s @ ys"
    using ys1 ys2 by simp
  have 2: "\<exists>us. added s' = added s @ map Nested_entry us \<and> distinct us \<and>
      set us \<inter> visited_urls s = {} \<and> visited_urls s' = visited_urls s \<union> set us \<and>
      set us \<subseteq> unit_urls r"
    unfolding r using us1 us2 by (intro exI [where x = "us1 @ us2"]) auto
  have 3: "\<forall>sc\<in>set r. units sc \<noteq> Some [] \<and>
      (\<forall>y\<in>set (nodes (get_list (units sc))). subunits y \<noteq> Some [])"
    unfolding r using fp ih by simp
  from 1 2 3 show ?case by blast
qed

lemma get_list_attach [simp]: "get_list (attach xs) = xs"
  by (simp add: attach_def get_list_def)

lemma found_level:
  assumes r: "(if has_nested_structure sp then scrape_nested_structure e url 0 3 (logged s url)
               else scrape_flat_structure e sp url (logged s url)) = Inr (items, s2)"
    and l: "has_level items"
  shows "has_nested_structure sp \<and> url \<notin> visited_urls s"
proof (cases "has_nested_structure sp")
  case True
  with r have a: "scrape_nested_structure e url 0 3 (logged s url) = Inr (items, s2)" by simp
  have "url \<notin> visited_urls s"
  proof
    assume "url \<in> visited_urls s"
    then have "scrape_nested_structure e url 0 3 (logged s url) = Inr ([], logged s url)"
      by (simp add: nested_guard)
    with a have "items = []" by simp
    with l show False by (simp add: has_level_def)
  qed
  with True show ?thesis by simp
next
  case False
  with r have a: "scrape_flat_structure e sp url (logged s url) = Inr (items, s2)" by simp
  from flat_frame [OF a] l show ?thesis by (auto simp: has_level_def)
qed

lemma sub_loop_entered:
  "sub_loop e as s = Inr (r, s') \<Longrightarrow>
   \<forall>sc\<in>set r. has_level (get_list (units sc)) \<longrightarrow>
     sub_url sc \<in> visited_urls s' \<and> sub_url sc \<notin> visited_urls s"
proof (induction as s arbitrary: r s' rule: sub_induct [where e = e])
  case (nil s)
  then show ?case by simp
next
  case (skip a as s)
  from skip.prems skip.hyps skip.IH [of r s'] show ?case by (simp add: sub_skip)
next
  case (raise a as s name h err)
  then show ?case by (simp add: sub_raise)
next
  case (failed a as s name h url)
  from failed.prems failed.hyps have "sub_loop e as (logged s url) = Inr (r, s')"
    by (simp add: sub_failed)
  from failed.IH [OF this] show ?case by auto
next
  case (found a as s name h url sp)
  from found.hyps found.prems obtain items s2 rest where
    a: "(if has_nested_structure sp then scrape_nested_structure e url 0 3 (logged s url)
         else scrape_flat_structure e sp url (logged s url)) = Inr (items, s2)"
    and b: "sub_loop e as s2 = Inr (rest, s')"
    and r: "r = \<lparr>sub_name = name, sub_url = url, sub_type = Subcategory,
          sub_info = extract_additional_info sp, units = attach items\<rparr> # rest"
    by (rule sub_found_Inr)
  note fp = found_props [OF a]
  note ih = found.IH [OF a b]
  from fp have v2: "visited_urls s \<subseteq> visited_urls s2" by auto
  from sub_loop_frame [OF b] have v3: "visited_urls s2 \<subseteq> visited_urls s'" by auto
  have head: "has_level items \<longrightarrow> url \<in> visited_urls s' \<and> url \<notin> visited_urls s"
  proof
    assume l: "has_level items"
    from found_level [OF a l] have n: "has_nested_structure sp" "url \<notin> visited_urls s"
      by simp_all
    with fp have "url \<in> visited_urls s2" by auto
    with v3 n show "url \<in> visited_urls s' \<and> url \<notin> visited_urls s" by auto
  qed
  have tail: "\<forall>sc\<in>set rest. has_level (get_list (units sc)) \<longrightarrow>
     sub_url sc \<in> visited_urls s' \<and> sub_url sc \<notin> visited_urls s"
    using ih v2 by auto
  from head tail show ?case unfolding r by simp
qed

lemma main_found_Inr:
  assumes "find_h4 a = Some name" "href a = Some h" "resolve e BASE_URL h = Inr url"
    "url \<notin> visited_urls s" "page_at e s url = Some sp" "main_loop e (a # as) s = Inr (r, s')"
  obtains subcats s2 rest where
    "sub_loop e (sp anchor_with_heading) (logged s url) = Inr (subcats, s2)"
    "main_loop e as (branch_done s2 url) = Inr (rest, s')"
    "r = \<lparr>comp_name = name, comp_url = url, comp_type = Main_branch,
          comp_info = extract_additional_info sp, subcategories = attach subcats\<rparr> # rest"
  using assms by (auto simp: main_found split: sum.splits)

lemma main_loop_prefix:
  "main_loop e as s = Inr (r, s') \<Longrightarrow> \<exists>ys. fetched s' = fetched s @ ys"
proof (induction as s arbitrary: r s' rule: main_induct [where e = e])
  case (nil s)
  then show ?case by simp
next
  case (skip a as s)
  from skip.prems skip.hyps skip.IH [of r s'] show ?case by (simp add: main_skip)
next
  case (raise a as s name h err)
  then show ?case by (simp add: main_raise)
next
  case (failed a as s name h url)
  from failed.prems failed.hyps have "main_loop e as (logged s url) = Inr (r, s')"
    by (simp add: main_failed)
  from failed.IH [OF this] show ?case by auto
next
  case (found a as s name h url sp)
  from found.hyps found.prems obtain subcats s2 rest where
    a: "sub_loop e (sp anchor_with_heading) (logged s url) = Inr (subcats, s2)"
    and b: "main_loop e as (branch_done s2 url) = Inr (rest, s')"
    by (rule main_found_Inr)
  from sub_loop_frame [OF a] obtain ys1 where "fetched s2 = fetched s @ url # ys1" by auto
  moreover from found.IH [OF a b] obtain ys2 where "fetched s' = fetched s2 @ ys2" by auto
  ultimately show ?case by simp
qed

lemma main_loop_tree:
  "main_loop e as s = Inr (r, s') \<Longrightarrow>
   \<forall>c\<in>set r. subcategories c \<noteq> Some [] \<and>
     (\<forall>sc\<in>set (get_list (subcategories c)). units sc \<noteq> Some [] \<and>
        (\<forall>y\<in>set (nodes (get_list (units sc))). subunits y \<noteq> Some []))"
proof (induction as s arbitrary: r s' rule: main_induct [where e = e])
  case (nil s)
  then show ?case by simp
next
  case (skip a as s)
  from skip.prems skip.hyps skip.IH [of r s'] show ?case by (simp add: main_skip)
next
  case (raise a as s name h err)
  then show ?case by (simp add: main_raise)
next
  case (failed a as s name h url)
  from failed.prems failed.hyps have "main_loop e as (logged s url) = Inr (r, s')"
    by (simp add: main_failed)
  from failed.IH [OF this] show ?case by auto
next
  case (found a as s name h url sp)
  from found.hyps found.prems obtain subcats s2 rest where
    a: "sub_loop e (sp anchor_with_heading) (logged s url) = Inr (subcats, s2)"
    and b: "main_loop e as (branch_done s2 url) = Inr (rest, s')"
    and r: "r = \<lparr>comp_name = name, comp_url = url, comp_type = Main_branch,
          comp_info = extract_additional_info sp, subcategories = attach subcats\<rparr> # rest"
    by (rule main_found_Inr)
  from sub_loop_frame [OF a] have
    "\<forall>sc\<in>set subcats. units sc \<noteq> Some [] \<and>
        (\<forall>y\<in>set (nodes (get_list (units sc))). subunits y \<noteq> Some [])"
    by blast
  with found.IH [OF a b] show ?case unfolding r by simp
qed

lemma main_loop_marks:
  "main_loop e as s = Inr (r, s') \<Longrightarrow>
   \<exists>ps. added s' = added s @ concat (map2 branch_marks ps r) \<and>
        list_all2 branch_entries ps r \<and>
        distinct (concat ps) \<and> set (concat ps) \<inter> visited_urls s = {} \<and>
        distinct (map comp_url r) \<and> comp_url ` set r \<inter> visited_urls s = {} \<and>
        visited_urls s' = visited_urls s \<union> set (concat ps) \<union> comp_url ` set r"
proof (induction as s arbitrary: r s' rule: main_induct [where e = e])
  case (nil s)
  then show ?case by simp
next
  case (skip a as s)
  from skip.prems skip.hyps skip.IH [of r s'] show ?case by (simp add: main_skip)
next
  case (raise a as s name h err)
  then show ?case by (simp add: main_raise)
next
  case (failed a as s name h url)
  from failed.prems failed.hyps have "main_loop e as (logged s url) = Inr (r, s')"
    by (simp add: main_failed)
  from failed.IH [OF this] show ?case by simp
next
  case (found a as s name h url sp)
  from found.hyps found.prems obtain subcats s2 rest where
    a: "sub_loop e (sp anchor_with_heading) (logged s url) = Inr (subcats, s2)"
    and b: "main_loop e as (branch_done s2 url) = Inr (rest, s')"
    and r: "r = \<lparr>comp_name = name, comp_url = url, comp_type = Main_branch,
          comp_info = extract_additional_info sp, subcategories = attach subcats\<rparr> # rest"
    by (rule main_found_Inr)
  let ?c = "\<lparr>comp_name = name, comp_url = url, comp_type = Main_branch,
          comp_info = extract_additional_info sp, subcategories = attach subcats\<rparr>"
  from sub_loop_frame [OF a] obtain us where us:
    "added s2 = added s @ map Nested_entry us" "distinct us"
    "set us \<inter> visited_urls s = {}" "visited_urls s2 = visited_urls s \<union> set us"
    "set us \<subseteq> unit_urls subcats"
    by auto
  from found.IH [OF a b] obtain ps where ps:
    "added s' = added s2 @ [Branch_done url] @ concat (map2 branch_marks ps rest)"
    "list_all2 branch_entries ps rest"
    "distinct (concat ps)" "set (concat ps) \<inter> insert url (visited_urls s2) = {}"
    "distinct (map comp_url rest)" "comp_url ` set rest \<inter> insert url (visited_urls s2) = {}"
    "visited_urls s' = insert url (visited_urls s2) \<union> set (concat ps) \<union> comp_url ` set rest"
    by auto
  have be: "branch_entries us ?c"
    unfolding branch_entries_def
  proof (intro conjI ballI impI)
    show "set us \<subseteq> unit_urls (get_list (subcategories ?c))" using us(5) by simp
  next
    fix sc
    assume sc: "sc \<in> set (get_list (subcategories ?c))"
      and l: "has_level (get_list (units sc))"
    from sc have "sc \<in> set subcats" by simp
    with sub_loop_entered [OF a] l
    have "sub_url sc \<in> visited_urls s2" "sub_url sc \<notin> visited_urls s" by auto
    with us(4) show "sub_url sc \<in> set us" by auto
  qed
  have 1: "added s' = added s @ concat (map2 branch_marks (us # ps) r)"
    unfolding r using us(1) ps(1) by (simp add: branch_marks_def)
  have 2: "list_all2 branch_entries (us # ps) r"
    unfolding r using be ps(2) by simp
  have 3: "distinct (concat (us # ps))"
    using us(2) ps(3) ps(4) us(4) by auto
  have 4: "set (concat (us # ps)) \<inter> visited_urls s = {}"
    using us(3) ps(4) us(4) by auto
  have 5: "distinct (map comp_url r)"
    unfolding r using ps(5) ps(6) by auto
  have 6: "comp_url ` set r \<inter> visited_urls s = {}"
    unfolding r using ps(6) us(4) found.hyps by auto
  have 7: "visited_urls s' = visited_urls s \<union> set (concat (us # ps)) \<union> comp_url ` set r"
    unfolding r using ps(7) us(4) by auto
  from 1 2 3 4 5 6 7 show ?case by blast
qed

subsection \<open>Runs of the top-level pass without a branch\<close>






text \<open>The top-level pass.\<close>

lemma main_components_failed:
  "page_at e s TARGET_URL = None \<Longrightarrow>
   scrape_main_components e s =
     Inr ([], (logged (s\<lparr>visited_urls := {}\<rparr>) TARGET_URL))"
  by (simp add: scrape_main_components_def get_soup_def)

lemma main_components_page:
  "page_at e s TARGET_URL = Some sp \<Longrightarrow>
   scrape_main_components e s =
     main_loop e (sp anchor_with_heading)
       (logged (s\<lparr>visited_urls := {}\<rparr>) TARGET_URL)"
  by (simp add: scrape_main_components_def get_soup_def)

lemma main_components_Inr:
  assumes "scrape_main_components e s = Inr (r, s')"
  obtains (failed) "page_at e s TARGET_URL = None" "r = []"
      "s' = (logged (s\<lparr>visited_urls := {}\<rparr>) TARGET_URL)"
    | (page) sp where "page_at e s TARGET_URL = Some sp"
      "main_loop e (sp anchor_with_heading)
         (logged (s\<lparr>visited_urls := {}\<rparr>) TARGET_URL) = Inr (r, s')"
proof (cases "page_at e s TARGET_URL")
  case None
  with assms main_components_failed [OF None] show ?thesis by (intro failed) auto
next
  case (Some sp)
  with assms main_components_page [OF Some] show ?thesis by (intro page [of sp]) auto
qed



subsection \<open>Runs that return\<close>

text \<open>A crawl returns when \<^verbatim>\<open>urljoin\<close> accepts every link.\<close>

lemma resolve_joins:
  "\<forall>b h. \<exists>u. urljoin e b h = Inr u \<Longrightarrow> \<exists>u. resolve e base h = Inr u"
  by (simp add: resolve_def)

lemma flat_loop_returns:
  assumes j: "\<forall>b h. \<exists>u. urljoin e b h = Inr u"
  shows "\<exists>r s'. flat_loop e base els s = Inr (r, s')"
proof (induction els s rule: flat_induct [where e = e and base = base])
  case (nil s)
  show ?case by simp
next
  case (skip el els s)
  then show ?case by (simp add: flat_skip)
next
  case (raise el els s h err)
  with resolve_joins [OF j, of base h] show ?case by simp
next
  case (item el els s h url)
  from item.IH obtain rest s' where "flat_loop e base els (logged s url) = Inr (rest, s')"
    by blast
  with item.hyps show ?case by (simp add: flat_item_step)
qed

lemma flat_returns:
  "\<forall>b h. \<exists>u. urljoin e b h = Inr u \<Longrightarrow> \<exists>r s'. scrape_flat_structure e sp base s = Inr (r, s')"
  unfolding scrape_flat_structure_def by (rule flat_loop_returns)

lemma nested_returns:
  "\<forall>b h. \<exists>u. urljoin e b h = Inr u \<Longrightarrow>
     \<exists>r s'. scrape_nested_structure e url depth max_depth s = Inr (r, s')"
  "\<forall>b h. \<exists>u. urljoin e b h = Inr u \<Longrightarrow>
     \<exists>r s'. nested_loop e depth max_depth els s = Inr (r, s')"
proof (induction e url depth max_depth s and e depth max_depth els s rule: nested_induct)
  case (guard e url depth max_depth s)
  then show ?case by (simp add: nested_guard)
next
  case (failed e url depth max_depth s)
  then show ?case by (simp add: nested_failed)
next
  case (page e url depth max_depth s sp)
  from page.IH [OF page.prems] page.hyps show ?case by (simp add: nested_page_step)
next
  case (nil e depth max_depth s)
  show ?case by simp
next
  case (skip e depth max_depth el els s)
  from skip.IH [OF skip.prems] skip.hyps show ?case by (simp add: loop_skip)
next
  case (raise e depth max_depth el els s h err)
  with resolve_joins [OF raise.prems, of BASE_URL h] show ?case by simp
next
  case (leaf e depth max_depth el els s h url)
  from leaf.IH [OF leaf.prems] obtain rest s' where
    "nested_loop e depth max_depth els (logged s url) = Inr (rest, s')"
    by blast
  with leaf.hyps show ?case by (simp add: loop_leaf)
next
  case (nested e depth max_depth el els s h url sp)
  from nested.IH(1) [OF nested.prems] obtain sub_items s2 where
    a: "scrape_nested_structure e url (depth + 1) max_depth (logged s url) = Inr (sub_items, s2)"
    by blast
  from nested.IH(2) [OF a nested.prems] obtain rest s' where
    "nested_loop e depth max_depth els s2 = Inr (rest, s')"
    by blast
  with a nested.hyps show ?case by (simp add: loop_nested)
next
  case (flat e depth max_depth el els s h url sp)
  from flat_returns [OF flat.prems] obtain items s2 where
    a: "scrape_flat_structure e sp url (logged s url) = Inr (items, s2)"
    by blast
  from flat.IH [OF a flat.prems] obtain rest s' where
    "nested_loop e depth max_depth els s2 = Inr (rest, s')"
    by blast
  with a flat.hyps show ?case by (simp add: loop_flat)
qed

lemma sub_loop_returns:
  assumes j: "\<forall>b h. \<exists>u. urljoin e b h = Inr u"
  shows "\<exists>r s'. sub_loop e as s = Inr (r, s')"
proof (induction as s rule: sub_induct [where e = e])
  case (nil s)
  show ?case by simp
next
  case (skip a as s)
  then show ?case by (simp add: sub_skip)
next
  case (raise a as s name h err)
  with resolve_joins [OF j, of BASE_URL h] show ?case by simp
next
  case (failed a as s name h url)
  then show ?case by (simp add: sub_failed)
next
  case (found a as s name h url sp)
  have "\<exists>items s2. (if has_nested_structure sp
           then scrape_nested_structure e url 0 3 (logged s url)
           else scrape_flat_structure e sp url (logged s url)) = Inr (items, s2)"
    using nested_returns(1) [OF j] flat_returns [OF j] by simp
  then obtain items s2 where
    a: "(if has_nested_structure sp then scrape_nested_structure e url 0 3 (logged s url)
         else scrape_flat_structure e sp url (logged s url)) = Inr (items, s2)"
    by blast
  from found.IH [OF a] obtain rest s' where "sub_loop e as s2 = Inr (rest, s')" by blast
  with a found.hyps show ?case by (simp add: sub_found)
qed

lemma main_loop_returns:
  assumes j: "\<forall>b h. \<exists>u. urljoin e b h = Inr u"
  shows "\<exists>r s'. main_loop e as s = Inr (r, s')"
proof (induction as s rule: main_induct [where e = e])
  case (nil s)
  show ?case by simp
next
  case (skip a as s)
  then show ?case by (simp add: main_skip)
next
  case (raise a as s name h err)
  with resolve_joins [OF j, of BASE_URL h] show ?case by simp
next
  case (failed a as s name h url)
  then show ?case by (simp add: main_failed)
next
  case (found a as s name h url sp)
  from sub_loop_returns [OF j] obtain subcats s2 where
    a: "sub_loop e (sp anchor_with_heading) (logged s url) = Inr (subcats, s2)"
    by blast
  from found.IH [OF a] obtain rest s' where
    "main_loop e as (branch_done s2 url) = Inr (rest, s')"
    by blast
  with a found.hyps show ?case by (simp add: main_found)
qed

lemma main_components_returns:
  assumes j: "\<forall>b h. \<exists>u. urljoin e b h = Inr u"
  shows "\<exists>r s'. scrape_main_components e s = Inr (r, s')"
proof (cases "page_at e s TARGET_URL")
  case None
  then show ?thesis by (simp add: main_components_failed)
next
  case (Some sp)
  with main_loop_returns [OF j] show ?thesis by (simp add: main_components_page)
qed

subsection \<open>Requests of the passes\<close>

lemma nested_requests_first:
  assumes "scrape_nested_structure e url depth max_depth s = Inr (r, s')"
    and "url \<notin> visited_urls s" "depth \<le> max_depth"
  shows "\<exists>ys. fetched s' = fetched s @ url # ys"
proof (cases "page_at e s url")
  case None
  with assms show ?thesis by (auto simp: nested_failed)
next
  case (Some sp)
  with assms have "nested_loop e depth max_depth (sp (level_selector depth))
      (logged (entered s url) url) = Inr (r, s')"
    by (simp add: nested_page_step)
  from nested_prefix(2) [OF this] show ?thesis by simp
qed

lemma flat_loop_links:
  "flat_loop e base els s = Inr (r, s') \<Longrightarrow>
   map (\<lambda>el. resolve e base (the (href el)))
     (filter (\<lambda>el. get_text el \<noteq> [] \<and> href el \<noteq> None) els) = map Inr (map item_url r)"
proof (induction els s arbitrary: r s' rule: flat_induct [where e = e and base = base])
  case (nil s)
  then show ?case by simp
next
  case (skip el els s)
  from skip.prems skip.hyps skip.IH [of r s'] show ?case by (auto simp: flat_skip)
next
  case (raise el els s h err)
  then show ?case by (simp add: flat_raise)
next
  case (item el els s h url)
  from item.prems item.hyps obtain rest where
    rest: "flat_loop e base els (logged s url) = Inr (rest, s')"
    and r: "r = Item (get_text el) url Flat_item (additional_info_of (page_at e s url)) None # rest"
    by (auto simp: flat_item_step split: sum.splits)
  from item.IH [OF rest] r item.hyps show ?case by simp
qed

subsection \<open>Failed fetches below the entry page\<close>

text \<open>
  Claim C4, as stated, fails: a main-branch candidate whose page cannot be fetched
  yields no node. On \<open>lost_branch_site\<close> the entry page lists one branch, the
  request for its page fails, and the result is empty.
\<close>

theorem lost_branch_dropped:
  "requests_get lost_branch_site 0 TARGET_URL =
     Some (page [(anchor_with_heading, [heading_link ''Army'' ''http://b''])]) \<and>
   requests_get lost_branch_site 1 ''http://b'' = None \<and>
   scrape_main_components lost_branch_site start =
     Inr ([], \<lparr>visited_urls = {}, fetched = [TARGET_URL, ''http://b''], added = []\<rparr>)"
  by (simp add: lost_branch_site_def run_simps main_loop.simps(2))

text \<open>
  Claim C4, amended. A failed fetch below the entry page never stops the crawl; each
  loop goes on with the elements that remain. A flat item and a child of the nested
  pass whose page cannot be fetched still yield a node, with no metadata and no
  children. A nested pass whose own page cannot be fetched returns the empty list. A
  subcategory candidate and a main-branch candidate whose page cannot be fetched are
  skipped and yield no node. Whatever the requests answer, the top-level pass
  returns when \<^verbatim>\<open>urljoin\<close> accepts every link.
\<close>

theorem fetch_failure_absorbed:
  "(get_text el \<noteq> [] \<and> href el = Some h \<and> resolve e base h = Inr url \<and>
    requests_get e (length (fetched s)) url = None \<longrightarrow>
      flat_loop e base (el # els) s =
        (case flat_loop e base els (s\<lparr>fetched := fetched s @ [url]\<rparr>) of
           Inl err \<Rightarrow> Inl err
         | Inr (rest, s') \<Rightarrow> Inr (Item (get_text el) url Flat_item no_info None # rest, s'))) \<and>
   (get_text el \<noteq> [] \<and> href el = Some h \<and> resolve e BASE_URL h = Inr url \<and>
    url \<notin> visited_urls s \<and> requests_get e (length (fetched s)) url = None \<longrightarrow>
      nested_loop e depth max_depth (el # els) s =
        (case nested_loop e depth max_depth els (s\<lparr>fetched := fetched s @ [url]\<rparr>) of
           Inl err \<Rightarrow> Inl err
         | Inr (rest, s') \<Rightarrow>
             Inr (Item (get_text el) url (Level_item (depth + 1)) no_info None # rest, s'))) \<and>
   (url \<notin> visited_urls s \<and> depth \<le> max_depth \<and>
    requests_get e (length (fetched s)) url = None \<longrightarrow>
      scrape_nested_structure e url depth max_depth s =
        Inr ([], s\<lparr>visited_urls := insert url (visited_urls s),
                   added := added s @ [Nested_entry url],
                   fetched := fetched s @ [url]\<rparr>)) \<and>
   (find_h4 el = Some name \<and> href el = Some h \<and> resolve e BASE_URL h = Inr url \<and>
    requests_get e (length (fetched s)) url = None \<longrightarrow>
      sub_loop e (el # els) s = sub_loop e els (s\<lparr>fetched := fetched s @ [url]\<rparr>)) \<and>
   (find_h4 el = Some name \<and> href el = Some h \<and> resolve e BASE_URL h = Inr url \<and>
    url \<notin> visited_urls s \<and> requests_get e (length (fetched s)) url = None \<longrightarrow>
      main_loop e (el # els) s = main_loop e els (s\<lparr>fetched := fetched s @ [url]\<rparr>)) \<and>
   ((\<forall>b l. \<exists>u. urljoin e b l = Inr u) \<longrightarrow>
      (\<exists>r s'. scrape_main_components e s = Inr (r, s')))"
proof (intro conjI impI)
  assume "get_text el \<noteq> [] \<and> href el = Some h \<and> resolve e base h = Inr url \<and>
    requests_get e (length (fetched s)) url = None"
  then show "flat_loop e base (el # els) s =
        (case flat_loop e base els (s\<lparr>fetched := fetched s @ [url]\<rparr>) of
           Inl err \<Rightarrow> Inl err
         | Inr (rest, s') \<Rightarrow> Inr (Item (get_text el) url Flat_item no_info None # rest, s'))"
    by (simp add: flat_item_step [where h = h] cong: sum.case_cong)
next
  assume "get_text el \<noteq> [] \<and> href el = Some h \<and> resolve e BASE_URL h = Inr url \<and>
    url \<notin> visited_urls s \<and> requests_get e (length (fetched s)) url = None"
  then show "nested_loop e depth max_depth (el # els) s =
        (case nested_loop e depth max_depth els (s\<lparr>fetched := fetched s @ [url]\<rparr>) of
           Inl err \<Rightarrow> Inl err
         | Inr (rest, s') \<Rightarrow>
             Inr (Item (get_text el) url (Level_item (depth + 1)) no_info None # rest, s'))"
    by (simp add: loop_leaf [where h = h] cong: sum.case_cong)
next
  assume "url \<notin> visited_urls s \<and> depth \<le> max_depth \<and>
    requests_get e (length (fetched s)) url = None"
  then show "scrape_nested_structure e url depth max_depth s =
        Inr ([], s\<lparr>visited_urls := insert url (visited_urls s),
                   added := added s @ [Nested_entry url],
                   fetched := fetched s @ [url]\<rparr>)"
    by (simp add: nested_failed)
next
  assume "find_h4 el = Some name \<and> href el = Some h \<and> resolve e BASE_URL h = Inr url \<and>
    requests_get e (length (fetched s)) url = None"
  then show "sub_loop e (el # els) s = sub_loop e els (s\<lparr>fetched := fetched s @ [url]\<rparr>)"
    by (simp add: sub_failed [where h = h])
next
  assume "find_h4 el = Some name \<and> href el = Some h \<and> resolve e BASE_URL h = Inr url \<and>
    url \<notin> visited_urls s \<and> requests_get e (length (fetched s)) url = None"
  then show "main_loop e (el # els) s = main_loop e els (s\<lparr>fetched := fetched s @ [url]\<rparr>)"
    by (simp add: main_failed [where h = h])
next
  assume "\<forall>b l. \<exists>u. urljoin e b l = Inr u"
  then show "\<exists>r s'. scrape_main_components e s = Inr (r, s')"
    by (rule main_components_returns)
qed

theorem fetch_failure_absorbed_witness:
  "flat_loop down_site ''http://s'' [heading_link ''X'' ''http://x''] start =
     Inr ([Item ''X'' ''http://x'' Flat_item no_info None],
      \<lparr>visited_urls = {}, fetched = [''http://x''], added = []\<rparr>) \<and>
   nested_loop down_site 0 3 [heading_link ''X'' ''http://x''] start =
     Inr ([Item ''X'' ''http://x'' (Level_item 1) no_info None],
      \<lparr>visited_urls = {}, fetched = [''http://x''], added = []\<rparr>) \<and>
   scrape_nested_structure down_site ''http://x'' 0 3 start =
     Inr ([], \<lparr>visited_urls = {''http://x''}, fetched = [''http://x''],
               added = [Nested_entry ''http://x'']\<rparr>) \<and>
   sub_loop down_site [heading_link ''X'' ''http://x''] start =
     Inr ([], \<lparr>visited_urls = {}, fetched = [''http://x''], added = []\<rparr>) \<and>
   main_loop down_site [heading_link ''X'' ''http://x''] start =
     Inr ([], \<lparr>visited_urls = {}, fetched = [''http://x''], added = []\<rparr>) \<and>
   (\<exists>r s'. scrape_main_components
              \<lparr>requests_get = (\<lambda>n u. None), urljoin = (\<lambda>b l. Inr (b @ l))\<rparr> start =
            Inr (r, s'))"
proof -
  have r: "resolve down_site b ''http://x'' = Inr ''http://x''" for b
    by (simp add: resolve_def startswith_http_def)
  have g: "requests_get down_site n u = None" for n u
    by (simp add: down_site_def site_def)
  have t: "get_text (heading_link ''X'' ''http://x'') = ''X''"
          "href (heading_link ''X'' ''http://x'') = Some ''http://x''"
          "find_h4 (heading_link ''X'' ''http://x'') = Some ''X''"
    by (simp_all add: heading_link_def)
  have v: "visited_urls start = {}" "fetched start = []" "added start = []"
    by (simp_all add: start_def)
  have j: "\<forall>b l. \<exists>u. urljoin \<lparr>requests_get = (\<lambda>n u. None), urljoin = (\<lambda>b l. Inr (b @ l))\<rparr> b l
             = Inr u"
    by simp
  have a: "\<exists>r s'. scrape_main_components
              \<lparr>requests_get = (\<lambda>n u. None), urljoin = (\<lambda>b l. Inr (b @ l))\<rparr> start =
            Inr (r, s')"
    using fetch_failure_absorbed
            [where e = "\<lparr>requests_get = (\<lambda>n u. None), urljoin = (\<lambda>b l. Inr (b @ l))\<rparr>"
               and s = start] j
    by blast
  have b: "flat_loop down_site ''http://s'' [heading_link ''X'' ''http://x''] start =
     Inr ([Item ''X'' ''http://x'' Flat_item no_info None],
      \<lparr>visited_urls = {}, fetched = [''http://x''], added = []\<rparr>) \<and>
   nested_loop down_site 0 3 [heading_link ''X'' ''http://x''] start =
     Inr ([Item ''X'' ''http://x'' (Level_item 1) no_info None],
      \<lparr>visited_urls = {}, fetched = [''http://x''], added = []\<rparr>) \<and>
   scrape_nested_structure down_site ''http://x'' 0 3 start =
     Inr ([], \<lparr>visited_urls = {''http://x''}, fetched = [''http://x''],
               added = [Nested_entry ''http://x'']\<rparr>) \<and>
   sub_loop down_site [heading_link ''X'' ''http://x''] start =
     Inr ([], \<lparr>visited_urls = {}, fetched = [''http://x''], added = []\<rparr>) \<and>
   main_loop down_site [heading_link ''X'' ''http://x''] start =
     Inr ([], \<lparr>visited_urls = {}, fetched = [''http://x''], added = []\<rparr>)"
    using fetch_failure_absorbed
            [where el = "heading_link ''X'' ''http://x''" and h = "''http://x''"
               and e = down_site and s = start and base = "''http://s''"
               and url = "''http://x''" and depth = 0 and max_depth = 3 and els = "[]"
               and name = "''X''"]
    by (simp add: r g t v start_def)
  from b a show ?thesis by (intro conjI) simp_all
qed

subsection \<open>Names\<close>

text \<open>
  Claim C3 does not hold of the top-level pass: the main-branch scan and the
  subcategory scan test that the anchor has a heading, not that the heading has
  text. On \<open>nameless_site\<close> both build a node whose name is the empty string.
\<close>

theorem main_branch_empty_name:
  "scrape_main_components nameless_site start =
     Inr ([\<lparr>comp_name = [], comp_url = ''http://b'', comp_type = Main_branch,
            comp_info = no_info,
            subcategories = Some
              [\<lparr>sub_name = [], sub_url = ''http://s'', sub_type = Subcategory,
                sub_info = no_info, units = None\<rparr>]\<rparr>],
          \<lparr>visited_urls = {''http://b''},
           fetched = [TARGET_URL, ''http://b'', ''http://s''],
           added = [Branch_done ''http://b'']\<rparr>)"
  by (simp add: nameless_site_def run_simps main_loop.simps(2) sub_loop.simps(2))

subsection \<open>Child lists\<close>

text \<open>
  Claim C6. In the tree that the crawl returns, no node holds an empty list under
  \<open>subcategories\<close>, \<open>units\<close> or \<open>subunits\<close>. Where a node is built, each of these
  keys holds the child list that was computed when that list is not empty, and is
  absent when it is empty. The crawl returns a tree when \<^verbatim>\<open>urljoin\<close> accepts every
  link.
\<close>

theorem child_lists_never_empty:
  "(scrape_main_components e s = Inr (r, s') \<longrightarrow>
      (\<forall>c\<in>set r.
         subcategories c \<noteq> Some [] \<and>
         (\<forall>sc\<in>set (get_list (subcategories c)).
            units sc \<noteq> Some [] \<and>
            (\<forall>y\<in>set (nodes (get_list (units sc))). subunits y \<noteq> Some [])))) \<and>
   (find_h4 a = Some name \<and> href a = Some h \<and> resolve e BASE_URL h = Inr url \<and>
    url \<notin> visited_urls s \<and> page_at e s url = Some sp \<and>
    sub_loop e (sp anchor_with_heading) (logged s url) = Inr (subcats, s2) \<and>
    main_loop e as (branch_done s2 url) = Inr (more_branches, s3) \<longrightarrow>
      main_loop e (a # as) s =
        Inr (\<lparr>comp_name = name, comp_url = url, comp_type = Main_branch,
              comp_info = extract_additional_info sp,
              subcategories = (if subcats \<noteq> [] then Some subcats else None)\<rparr> #
             more_branches, s3)) \<and>
   (find_h4 a = Some name \<and> href a = Some h \<and> resolve e BASE_URL h = Inr url \<and>
    page_at e s url = Some sp \<and>
    (if has_nested_structure sp then scrape_nested_structure e url 0 3 (logged s url)
     else scrape_flat_structure e sp url (logged s url)) = Inr (items, s2) \<and>
    sub_loop e as s2 = Inr (more_subcats, s3) \<longrightarrow>
      sub_loop e (a # as) s =
        Inr (\<lparr>sub_name = name, sub_url = url, sub_type = Subcategory,
              sub_info = extract_additional_info sp,
              units = (if items \<noteq> [] then Some items else None)\<rparr> # more_subcats, s3)) \<and>
   (get_text a \<noteq> [] \<and> href a = Some h \<and> resolve e BASE_URL h = Inr url \<and>
    url \<notin> visited_urls s \<and> depth < max_depth \<and> page_at e s url = Some sp \<and>
    (if has_nested_structure sp
     then scrape_nested_structure e url (depth + 1) max_depth (logged s url)
     else scrape_flat_structure e sp url (logged s url)) = Inr (items, s2) \<and>
    nested_loop e depth max_depth as s2 = Inr (more_items, s3) \<longrightarrow>
      nested_loop e depth max_depth (a # as) s =
        Inr (Item (get_text a) url (Level_item (depth + 1)) (extract_additional_info sp)
               (if items \<noteq> [] then Some items else None) # more_items, s3)) \<and>
   ((\<forall>b l. \<exists>u. urljoin e b l = Inr u) \<longrightarrow>
      (\<exists>r s'. scrape_main_components e s = Inr (r, s')))"
proof (intro conjI impI ballI)
  fix c
  assume run: "scrape_main_components e s = Inr (r, s')" and c: "c \<in> set r"
  have inv: "\<forall>c\<in>set r. subcategories c \<noteq> Some [] \<and>
     (\<forall>sc\<in>set (get_list (subcategories c)). units sc \<noteq> Some [] \<and>
        (\<forall>y\<in>set (nodes (get_list (units sc))). subunits y \<noteq> Some []))"
    using run
  proof (cases rule: main_components_Inr)
    case failed
    then show ?thesis by simp
  next
    case (page sp0)
    from main_loop_tree [OF page(2)] show ?thesis .
  qed
  from inv c show "subcategories c \<noteq> Some []" by simp
  fix sc
  assume sc: "sc \<in> set (get_list (subcategories c))"
  with inv c show "units sc \<noteq> Some []" by simp
  fix y
  assume "y \<in> set (nodes (get_list (units sc)))"
  with inv c sc show "subunits y \<noteq> Some []" by simp
next
  assume "find_h4 a = Some name \<and> href a = Some h \<and> resolve e BASE_URL h = Inr url \<and>
    url \<notin> visited_urls s \<and> page_at e s url = Some sp \<and>
    sub_loop e (sp anchor_with_heading) (logged s url) = Inr (subcats, s2) \<and>
    main_loop e as (branch_done s2 url) = Inr (more_branches, s3)"
  then show "main_loop e (a # as) s =
        Inr (\<lparr>comp_name = name, comp_url = url, comp_type = Main_branch,
              comp_info = extract_additional_info sp,
              subcategories = (if subcats \<noteq> [] then Some subcats else None)\<rparr> #
             more_branches, s3)"
    by (simp add: main_found [where h = h and sp = sp] attach_def)
next
  assume "find_h4 a = Some name \<and> href a = Some h \<and> resolve e BASE_URL h = Inr url \<and>
    page_at e s url = Some sp \<and>
    (if has_nested_structure sp then scrape_nested_structure e url 0 3 (logged s url)
     else scrape_flat_structure e sp url (logged s url)) = Inr (items, s2) \<and>
    sub_loop e as s2 = Inr (more_subcats, s3)"
  then show "sub_loop e (a # as) s =
        Inr (\<lparr>sub_name = name, sub_url = url, sub_type = Subcategory,
              sub_info = extract_additional_info sp,
              units = (if items \<noteq> [] then Some items else None)\<rparr> # more_subcats, s3)"
    by (simp add: sub_found [where h = h and sp = sp] attach_def)
next
  assume a: "get_text a \<noteq> [] \<and> href a = Some h \<and> resolve e BASE_URL h = Inr url \<and>
    url \<notin> visited_urls s \<and> depth < max_depth \<and> page_at e s url = Some sp \<and>
    (if has_nested_structure sp
     then scrape_nested_structure e url (depth + 1) max_depth (logged s url)
     else scrape_flat_structure e sp url (logged s url)) = Inr (items, s2) \<and>
    nested_loop e depth max_depth as s2 = Inr (more_items, s3)"
  show "nested_loop e depth max_depth (a # as) s =
        Inr (Item (get_text a) url (Level_item (depth + 1)) (extract_additional_info sp)
               (if items \<noteq> [] then Some items else None) # more_items, s3)"
  proof (cases "has_nested_structure sp")
    case True
    with a show ?thesis
      by (simp add: loop_nested [where h = h and sp = sp] attach_def)
  next
    case False
    with a show ?thesis
      by (simp add: loop_flat [where h = h and sp = sp] attach_def)
  qed
next
  assume "\<forall>b l. \<exists>u. urljoin e b l = Inr u"
  then show "\<exists>r s'. scrape_main_components e s = Inr (r, s')"
    by (rule main_components_returns)
qed

subsection \<open>The depth limit\<close>

text \<open>
  Claim C2. A nested pass called with a depth above the limit returns the empty
  list and leaves the state as it was, so it fetches nothing. Every node that a pass
  at depth \<open>d\<close> returns has the tag of level \<open>d + 1\<close>, and every node below has
  the tag of a flat item or of a level from \<open>d + 1\<close> to the limit plus one. At the
  limit the returned nodes have no children, and the pass requests its own page and
  then one page for each returned node, nothing more. At every depth the returned
  trees have at most limit minus depth plus one levels, and every URL requested is
  the URL of the pass or of a returned node. The pass returns when \<^verbatim>\<open>urljoin\<close>
  accepts every link.
\<close>

theorem nested_depth_bound:
  "(max_depth < depth \<longrightarrow> scrape_nested_structure e url depth max_depth s = Inr ([], s)) \<and>
   (scrape_nested_structure e url depth max_depth s = Inr (r, s') \<longrightarrow>
      (\<forall>x\<in>set r. item_type x = Level_item (depth + 1)) \<and>
      (\<forall>y\<in>set (nodes r).
         item_type y = Flat_item \<or>
         (\<exists>k. item_type y = Level_item k \<and> depth + 1 \<le> k \<and> k \<le> max_depth + 1)) \<and>
      (depth = max_depth \<and> url \<notin> visited_urls s \<longrightarrow>
         (\<forall>x\<in>set r. subunits x = None) \<and>
         fetched s' = fetched s @ url # map item_url r) \<and>
      list_all (levels (nat (max_depth - depth + 1))) r \<and>
      set (fetched s') \<subseteq> set (fetched s) \<union> {url} \<union> item_url ` set (nodes r)) \<and>
   ((\<forall>b l. \<exists>u. urljoin e b l = Inr u) \<longrightarrow>
      (\<exists>r s'. scrape_nested_structure e url depth max_depth s = Inr (r, s')))"
proof (intro conjI impI)
  assume "max_depth < depth"
  then show "scrape_nested_structure e url depth max_depth s = Inr ([], s)"
    by (simp add: nested_guard)
next
  assume run: "scrape_nested_structure e url depth max_depth s = Inr (r, s')"
  from nested_tree(1) [OF run] show "\<forall>x\<in>set r. item_type x = Level_item (depth + 1)"
    by blast
  show "\<forall>y\<in>set (nodes r).
         item_type y = Flat_item \<or>
         (\<exists>k. item_type y = Level_item k \<and> depth + 1 \<le> k \<and> k \<le> max_depth + 1)"
  proof
    fix y
    assume "y \<in> set (nodes r)"
    with nested_tree(1) [OF run]
    have "kind_within (depth + 1) (max_depth + 1) (item_type y)" by blast
    then show "item_type y = Flat_item \<or>
         (\<exists>k. item_type y = Level_item k \<and> depth + 1 \<le> k \<and> k \<le> max_depth + 1)"
      by (cases "item_type y") (simp_all add: kind_within_def)
  qed
  from nested_tree(1) [OF run] show "list_all (levels (nat (max_depth - depth + 1))) r"
    by blast
  from nested_fetched_nodes(1) [OF run]
  show "set (fetched s') \<subseteq> set (fetched s) \<union> {url} \<union> item_url ` set (nodes r)" .
  {
    assume lim: "depth = max_depth \<and> url \<notin> visited_urls s"
    with run have "scrape_nested_structure e url max_depth max_depth s = Inr (r, s')" by simp
    from nested_at_limit [OF this] lim
    have both: "(\<forall>x\<in>set r. subunits x = None) \<and> fetched s' = fetched s @ url # map item_url r"
      by simp
    from both show "\<forall>x\<in>set r. subunits x = None" ..
    from both show "fetched s' = fetched s @ url # map item_url r" ..
  }
next
  assume "\<forall>b l. \<exists>u. urljoin e b l = Inr u"
  then show "\<exists>r s'. scrape_nested_structure e url depth max_depth s = Inr (r, s')"
    by (rule nested_returns(1))
qed

theorem child_lists_never_empty_witness:
  "list_all (\<lambda>c. subcategories c \<noteq> Some []) small_tree \<and>
   nested_loop nested_site 0 3 [link ''X'' ''http://x''] start =
     Inr ([Item ''X'' ''http://x'' (Level_item 1) no_info
             (Some [Item ''Y'' ''http://y'' (Level_item 2) no_info None])],
          \<lparr>visited_urls = {''http://x''},
           fetched = [''http://x'', ''http://x'', ''http://y''],
           added = [Nested_entry ''http://x'']\<rparr>)"
proof -
  let ?sp = "nested_page [link ''Y'' ''http://y'']"
  have r: "resolve nested_site BASE_URL ''http://x'' = Inr ''http://x''"
    by (simp add: resolve_def startswith_http_def)
  have p: "page_at nested_site start ''http://x'' = Some ?sp"
    by (simp add: nested_site_def site_def TARGET_URL_def)
  have n: "has_nested_structure ?sp"
    by (simp add: has_nested_structure_def nested_page_def page_def first_level_def
          second_level_def)
  have i: "extract_additional_info ?sp = no_info"
    by (simp add: run_simps)
  have v: "''http://x'' \<notin> visited_urls start"
    by (simp add: start_def)
  have t: "get_text (link ''X'' ''http://x'') = ''X''"
    "href (link ''X'' ''http://x'') = Some ''http://x''"
    by (simp_all add: link_def)
  have q: "scrape_nested_structure nested_site ''http://x'' (0 + 1) 3 (logged start ''http://x'') =
     Inr ([Item ''Y'' ''http://y'' (Level_item 2) no_info None],
          \<lparr>visited_urls = {''http://x''},
           fetched = [''http://x'', ''http://x'', ''http://y''],
           added = [Nested_entry ''http://x'']\<rparr>)"
    by (simp add: nested_site_def run_simps scrape_nested_structure.simps nested_loop.simps(2))
  have l: "nested_loop nested_site 0 3 []
      \<lparr>visited_urls = {''http://x''},
           fetched = [''http://x'', ''http://x'', ''http://y''],
           added = [Nested_entry ''http://x'']\<rparr> =
     Inr ([], \<lparr>visited_urls = {''http://x''},
           fetched = [''http://x'', ''http://x'', ''http://y''],
           added = [Nested_entry ''http://x'']\<rparr>)"
    by simp
  have run: "scrape_main_components nested_site start =
     Inr (small_tree,
      \<lparr>visited_urls = {''http://b'', ''http://x'', ''http://s''},
       fetched = [TARGET_URL, ''http://b'', ''http://s'', ''http://s'', ''http://x'',
                  ''http://x'', ''http://y''],
       added = [Nested_entry ''http://s'', Nested_entry ''http://x'',
                Branch_done ''http://b'']\<rparr>)"
    by (rule nested_site_run)
  have "\<forall>c\<in>set small_tree. subcategories c \<noteq> Some []"
    using child_lists_never_empty [THEN conjunct1, THEN mp, OF run] by blast
  then have a: "list_all (\<lambda>c. subcategories c \<noteq> Some []) small_tree"
    by (simp add: list_all_iff)
  have pre: "get_text (link ''X'' ''http://x'') \<noteq> [] \<and>
    href (link ''X'' ''http://x'') = Some ''http://x'' \<and>
    resolve nested_site BASE_URL ''http://x'' = Inr ''http://x'' \<and>
    ''http://x'' \<notin> visited_urls start \<and> (0::int) < 3 \<and>
    page_at nested_site start ''http://x'' = Some ?sp \<and>
    (if has_nested_structure ?sp
     then scrape_nested_structure nested_site ''http://x'' (0 + 1) 3 (logged start ''http://x'')
     else scrape_flat_structure nested_site ?sp ''http://x'' (logged start ''http://x'')) =
      Inr ([Item ''Y'' ''http://y'' (Level_item 2) no_info None],
          \<lparr>visited_urls = {''http://x''},
           fetched = [''http://x'', ''http://x'', ''http://y''],
           added = [Nested_entry ''http://x'']\<rparr>) \<and>
    nested_loop nested_site 0 3 []
      \<lparr>visited_urls = {''http://x''},
           fetched = [''http://x'', ''http://x'', ''http://y''],
           added = [Nested_entry ''http://x'']\<rparr> =
     Inr ([], \<lparr>visited_urls = {''http://x''},
           fetched = [''http://x'', ''http://x'', ''http://y''],
           added = [Nested_entry ''http://x'']\<rparr>)"
    using r p n v t q l by simp
  have b: "nested_loop nested_site 0 3 [link ''X'' ''http://x''] start =
     Inr ([Item ''X'' ''http://x'' (Level_item 1) no_info
             (Some [Item ''Y'' ''http://y'' (Level_item 2) no_info None])],
          \<lparr>visited_urls = {''http://x''},
           fetched = [''http://x'', ''http://x'', ''http://y''],
           added = [Nested_entry ''http://x'']\<rparr>)"
    using child_lists_never_empty
      [THEN conjunct2, THEN conjunct2, THEN conjunct2, THEN conjunct1, THEN mp, OF pre]
    by (simp add: t i)
  from a b show ?thesis ..
qed

theorem nested_depth_bound_witness:
  "scrape_nested_structure deep_site ''http://x'' 2 1 start = Inr ([], start) \<and>
   list_all (\<lambda>x. item_type x = Level_item 1)
     [Item ''X'' ''http://x'' (Level_item 1) no_info
        (Some [Item ''Y'' ''http://y'' (Level_item 2) no_info None])] \<and>
   list_all (levels 2)
     [Item ''X'' ''http://x'' (Level_item 1) no_info
        (Some [Item ''Y'' ''http://y'' (Level_item 2) no_info None])] \<and>
   list_all (\<lambda>x. subunits x = None) [Item ''Y'' ''http://y'' (Level_item 2) no_info None] \<and>
   (\<exists>r s'. scrape_nested_structure
              \<lparr>requests_get = (\<lambda>n u. None), urljoin = (\<lambda>b l. Inr (b @ l))\<rparr>
              ''http://s'' 0 3 start = Inr (r, s'))"
proof -
  let ?r = "[Item ''X'' ''http://x'' (Level_item 1) no_info
        (Some [Item ''Y'' ''http://y'' (Level_item 2) no_info None])]"
  have a: "scrape_nested_structure deep_site ''http://x'' 2 1 start = Inr ([], start)"
    using nested_depth_bound [of 1 2 deep_site "''http://x''" start] by simp
  note top = nested_depth_bound [THEN conjunct2, THEN conjunct1, THEN mp, OF deep_site_limit_1]
  from top have "\<forall>x\<in>set ?r. item_type x = Level_item (0 + 1)" by (rule conjunct1)
  then have b: "list_all (\<lambda>x. item_type x = Level_item 1) ?r"
    by (simp add: list_all_iff)
  from top have "list_all (levels (nat (1 - 0 + 1))) ?r" by blast
  then have c: "list_all (levels 2) ?r" by simp
  have v: "(1::int) = 1 \<and> ''http://x'' \<notin> visited_urls start"
    by (simp add: start_def)
  note lim = nested_depth_bound [THEN conjunct2, THEN conjunct1, THEN mp, OF deep_site_at_limit,
      THEN conjunct2, THEN conjunct2, THEN conjunct1, THEN mp, OF v, THEN conjunct1]
  then have d: "list_all (\<lambda>x. subunits x = None)
      [Item ''Y'' ''http://y'' (Level_item 2) no_info None]"
    by (simp add: list_all_iff)
  have j: "\<forall>b l. \<exists>u. urljoin \<lparr>requests_get = (\<lambda>n u. None), urljoin = (\<lambda>b l. Inr (b @ l))\<rparr> b l
             = Inr u"
    by simp
  have e: "\<exists>r s'. scrape_nested_structure
              \<lparr>requests_get = (\<lambda>n u. None), urljoin = (\<lambda>b l. Inr (b @ l))\<rparr>
              ''http://s'' 0 3 start = Inr (r, s')"
    using nested_depth_bound
            [where e = "\<lparr>requests_get = (\<lambda>n u. None), urljoin = (\<lambda>b l. Inr (b @ l))\<rparr>"
               and s = start and url = "''http://s''" and depth = 0 and max_depth = 3] j
    by blast
  from a b c d e show ?thesis by (intro conjI)
qed

subsection \<open>Repeated requests\<close>

text \<open>
  Claim C1, as stated, fails: the nested pass requests the page of a child that it
  recurses into twice, once in the parent's pass for the metadata and the
  classification and once more on entry of the recursive call. On \<open>nested_site\<close>
  the page of the unit X is requested twice in a row.
\<close>

theorem nested_pass_fetches_child_twice:
  "scrape_nested_structure nested_site ''http://s'' 0 3 start =
     Inr ([Item ''X'' ''http://x'' (Level_item 1) no_info
             (Some [Item ''Y'' ''http://y'' (Level_item 2) no_info None])],
          \<lparr>visited_urls = {''http://x'', ''http://s''},
           fetched = [''http://s'', ''http://x'', ''http://x'', ''http://y''],
           added = [Nested_entry ''http://s'', Nested_entry ''http://x'']\<rparr>) \<and>
   count_list [''http://s'', ''http://x'', ''http://x'', ''http://y''] ''http://x'' = 2"
  by (simp add: nested_site_pass)

text \<open>
  Claim C1, amended. The visited set guards the entry of the nested pass, not the
  requests. A pass called on a visited URL, or above the depth limit, returns the
  empty list and leaves the state as it was. A pass that gets through its guard
  adds its URL to the visited set first: the request for its page and the whole
  loop over the children run in a state that holds the URL. A child whose URL is
  visited is skipped before any request. For a pass that returns, the URLs it has
  added, in the order of the additions, are pairwise distinct, none of them was
  visited before, the visited set has grown by exactly these, and each is the URL of
  the pass or of a node of the result that is not a flat item; if the pass got
  through its guard, its own URL is the first of them and its first request, and
  any later pass on that URL returns the empty list without a request. No node of
  the result that is not a flat item has the URL of the pass or a URL visited
  before. So each URL is entered at most once. Requests are repeated: the page of a
  child that is recursed into is requested twice in a row, and the flat extraction
  requests every listed link that has a text, whatever the visited set and the
  earlier requests, and adds nothing to the visited set. Over a whole run of the
  top-level pass that returns, the entries of all the nested passes, taken branch
  by branch, are pairwise distinct as well.
\<close>

theorem nested_pass_entered_once:
  "(url \<in> visited_urls s \<or> max_depth < depth \<longrightarrow>
      scrape_nested_structure e url depth max_depth s = Inr ([], s)) \<and>
   (url \<notin> visited_urls s \<and> depth \<le> max_depth \<and> page_at e s url = None \<longrightarrow>
      scrape_nested_structure e url depth max_depth s =
        Inr ([], logged (entered s url) url)) \<and>
   (url \<notin> visited_urls s \<and> depth \<le> max_depth \<and> page_at e s url = Some sp \<longrightarrow>
      scrape_nested_structure e url depth max_depth s =
        nested_loop e depth max_depth (sp (level_selector depth))
          (logged (entered s url) url)) \<and>
   (href el = Some h \<and> resolve e BASE_URL h = Inr child \<and> child \<in> visited_urls s \<longrightarrow>
      nested_loop e depth max_depth (el # els) s = nested_loop e depth max_depth els s) \<and>
   (scrape_nested_structure e url depth max_depth s = Inr (r, s') \<longrightarrow>
      (\<exists>us. added s' = added s @ map Nested_entry us \<and> distinct us \<and>
         set us \<inter> visited_urls s = {} \<and> visited_urls s' = visited_urls s \<union> set us \<and>
         set us \<subseteq> insert url (level_urls r) \<and>
         (url \<notin> visited_urls s \<and> depth \<le> max_depth \<longrightarrow> (\<exists>vs. us = url # vs))) \<and>
      level_urls r \<inter> insert url (visited_urls s) = {} \<and>
      (url \<notin> visited_urls s \<and> depth \<le> max_depth \<longrightarrow>
         (\<exists>ys. fetched s' = fetched s @ url # ys) \<and>
         (\<forall>(s''::state) depth'.
            visited_urls s' \<subseteq> visited_urls s'' \<longrightarrow>
            scrape_nested_structure e url depth' max_depth s'' = Inr ([], s'')))) \<and>
   (get_text el \<noteq> [] \<and> href el = Some h \<and> resolve e BASE_URL h = Inr child \<and>
    child \<notin> visited_urls s \<and> depth < max_depth \<and> page_at e s child = Some sp \<and>
    has_nested_structure sp \<and>
    nested_loop e depth max_depth (el # els) s = Inr (r, s') \<longrightarrow>
      (\<exists>ys. fetched s' = fetched s @ child # child # ys)) \<and>
   (scrape_flat_structure e sp base s = Inr (r, s') \<longrightarrow>
      visited_urls s' = visited_urls s \<and> added s' = added s \<and>
      fetched s' = fetched s @ map item_url r \<and>
      map (\<lambda>el. resolve e base (the (href el)))
        (filter (\<lambda>el. get_text el \<noteq> [] \<and> href el \<noteq> None) (sp flat_list)) =
      map Inr (map item_url r)) \<and>
   (scrape_main_components e s = Inr (tree, s') \<longrightarrow>
      (\<exists>ps. added s' = added s @ concat (map2 branch_marks ps tree) \<and>
         distinct (concat ps)))"
proof (intro conjI impI allI)
  assume "url \<in> visited_urls s \<or> max_depth < depth"
  then show "scrape_nested_structure e url depth max_depth s = Inr ([], s)"
    by (rule nested_guard)
next
  assume "url \<notin> visited_urls s \<and> depth \<le> max_depth \<and> page_at e s url = None"
  then show "scrape_nested_structure e url depth max_depth s =
        Inr ([], logged (entered s url) url)"
    by (simp add: nested_failed)
next
  assume "url \<notin> visited_urls s \<and> depth \<le> max_depth \<and> page_at e s url = Some sp"
  then show "scrape_nested_structure e url depth max_depth s =
        nested_loop e depth max_depth (sp (level_selector depth))
          (logged (entered s url) url)"
    by (simp add: nested_page_step)
next
  assume "href el = Some h \<and> resolve e BASE_URL h = Inr child \<and> child \<in> visited_urls s"
  then show "nested_loop e depth max_depth (el # els) s = nested_loop e depth max_depth els s"
    by (intro loop_skip) simp
next
  assume run: "scrape_nested_structure e url depth max_depth s = Inr (r, s')"
  from nested_entries(1) [OF run]
  show "\<exists>us. added s' = added s @ map Nested_entry us \<and> distinct us \<and>
         set us \<inter> visited_urls s = {} \<and> visited_urls s' = visited_urls s \<union> set us \<and>
         set us \<subseteq> insert url (level_urls r) \<and>
         (url \<notin> visited_urls s \<and> depth \<le> max_depth \<longrightarrow> (\<exists>vs. us = url # vs))" .
  from nested_no_revisit(1) [OF run]
  show "level_urls r \<inter> insert url (visited_urls s) = {}" .
  {
    assume g: "url \<notin> visited_urls s \<and> depth \<le> max_depth"
    with nested_requests_first [OF run]
    show "\<exists>ys. fetched s' = fetched s @ url # ys" by simp
    fix s'' :: state and depth' :: int
    assume sub: "visited_urls s' \<subseteq> visited_urls s''"
    from nested_entries(1) [OF run] g have "url \<in> visited_urls s'" by auto
    with sub have "url \<in> visited_urls s''" ..
    then show "scrape_nested_structure e url depth' max_depth s'' = Inr ([], s'')"
      by (simp add: nested_guard)
  }
next
  assume "get_text el \<noteq> [] \<and> href el = Some h \<and> resolve e BASE_URL h = Inr child \<and>
    child \<notin> visited_urls s \<and> depth < max_depth \<and> page_at e s child = Some sp \<and>
    has_nested_structure sp \<and>
    nested_loop e depth max_depth (el # els) s = Inr (r, s')"
  then show "\<exists>ys. fetched s' = fetched s @ child # child # ys"
    using loop_fetches_twice [where h = h and sp = sp and url = child] by blast
next
  assume run: "scrape_flat_structure e sp base s = Inr (r, s')"
  from flat_frame [OF run] show "visited_urls s' = visited_urls s" by simp
  from flat_frame [OF run] show "added s' = added s" by simp
  from flat_frame [OF run] show "fetched s' = fetched s @ map item_url r" by simp
  from run show "map (\<lambda>el. resolve e base (the (href el)))
        (filter (\<lambda>el. get_text el \<noteq> [] \<and> href el \<noteq> None) (sp flat_list)) =
      map Inr (map item_url r)"
    unfolding scrape_flat_structure_def by (rule flat_loop_links)
next
  assume "scrape_main_components e s = Inr (tree, s')"
  then show "\<exists>ps. added s' = added s @ concat (map2 branch_marks ps tree) \<and>
         distinct (concat ps)"
  proof (cases rule: main_components_Inr)
    case failed
    then show ?thesis by (intro exI [where x = "[]"]) simp
  next
    case (page sp0)
    from main_loop_marks [OF page(2)] show ?thesis by auto
  qed
qed

theorem nested_pass_entered_once_witness:
  "scrape_nested_structure self_site ''http://s'' 0 3 start =
     Inr ([], \<lparr>visited_urls = {''http://s''}, fetched = [''http://s''],
               added = [Nested_entry ''http://s'']\<rparr>) \<and>
   scrape_nested_structure nested_site ''http://s'' 0 3
     \<lparr>visited_urls = {''http://x'', ''http://s''},
      fetched = [''http://s'', ''http://x'', ''http://x'', ''http://y''],
      added = [Nested_entry ''http://s'', Nested_entry ''http://x'']\<rparr> =
     Inr ([], \<lparr>visited_urls = {''http://x'', ''http://s''},
      fetched = [''http://s'', ''http://x'', ''http://x'', ''http://y''],
      added = [Nested_entry ''http://s'', Nested_entry ''http://x'']\<rparr>)"
proof -
  let ?sp = "nested_page [link ''S'' ''http://s'']"
  let ?s1 = "logged (entered start ''http://s'') ''http://s''"
  let ?s' = "\<lparr>visited_urls = {''http://x'', ''http://s''},
      fetched = [''http://s'', ''http://x'', ''http://x'', ''http://y''],
      added = [Nested_entry ''http://s'', Nested_entry ''http://x'']\<rparr>"
  have p: "''http://s'' \<notin> visited_urls start \<and> (0::int) \<le> 3 \<and>
      page_at self_site start ''http://s'' = Some ?sp"
    by (simp add: self_site_def site_def start_def)
  note entry = nested_pass_entered_once
      [THEN conjunct2, THEN conjunct2, THEN conjunct1, THEN mp, OF p]
  have c: "href (link ''S'' ''http://s'') = Some ''http://s'' \<and>
      resolve self_site BASE_URL ''http://s'' = Inr ''http://s'' \<and>
      ''http://s'' \<in> visited_urls ?s1"
    by (simp add: link_def resolve_def startswith_http_def)
  note skip = nested_pass_entered_once
      [THEN conjunct2, THEN conjunct2, THEN conjunct2, THEN conjunct1, THEN mp, OF c]
  have l: "?sp (level_selector 0) = [link ''S'' ''http://s'']"
    by (simp add: nested_page_def page_def level_selector_def)
  have a: "scrape_nested_structure self_site ''http://s'' 0 3 start =
     Inr ([], \<lparr>visited_urls = {''http://s''}, fetched = [''http://s''],
               added = [Nested_entry ''http://s'']\<rparr>)"
    unfolding entry l skip by (simp add: start_def)
  have v: "''http://s'' \<notin> visited_urls start \<and> (0::int) \<le> 3"
    by (simp add: start_def)
  note once = nested_pass_entered_once
      [THEN conjunct2, THEN conjunct2, THEN conjunct2, THEN conjunct2, THEN conjunct1,
       THEN mp, OF nested_site_pass, THEN conjunct2, THEN conjunct2, THEN mp, OF v,
       THEN conjunct2, THEN spec, THEN spec, THEN mp]
  have b: "scrape_nested_structure nested_site ''http://s'' 0 3 ?s' = Inr ([], ?s')"
    by (rule once) simp
  from a b show ?thesis ..
qed

subsection \<open>Failure of the entry page\<close>




subsection \<open>What the visited set holds\<close>

text \<open>
  Claim C10, as stated, fails: the URL of a subcategory is added to the visited set
  when the page of the subcategory is nested, since the nested pass is then called
  on that URL. On \<open>nested_site\<close> the URL of the only subcategory ends up in the
  visited set.
\<close>

theorem subcategory_url_is_visited:
  "scrape_main_components nested_site start =
     Inr (small_tree,
      \<lparr>visited_urls = {''http://b'', ''http://x'', ''http://s''},
       fetched = [TARGET_URL, ''http://b'', ''http://s'', ''http://s'', ''http://x'',
                  ''http://x'', ''http://y''],
       added = [Nested_entry ''http://s'', Nested_entry ''http://x'',
                Branch_done ''http://b'']\<rparr>) \<and>
   map sub_url (get_list (subcategories (hd small_tree))) = [''http://s''] \<and>
   ''http://s'' \<in> {''http://b'', ''http://x'', ''http://s''}"
  by (simp add: nested_site_run) (simp add: small_tree_def get_list_def)

text \<open>
  Claim C10, amended. The visited set grows at two places, and the log \<open>added\<close>
  records each addition with its place. A nested pass that gets through its guard
  adds its URL on entry, before the request for its page and before its loop; a
  pass stopped by its guard adds nothing. The top-level scan adds the URL of a
  branch after the subcategories of the branch have been scanned and the branch has
  been built; a branch whose page cannot be fetched adds nothing. The subcategory
  scan adds nothing by itself: a subcategory whose page cannot be fetched adds
  nothing, a subcategory whose page is not nested is extracted as a flat list, which
  adds nothing, and a subcategory whose page is nested has its URL added on entry of
  the nested pass called on it, unless that URL is visited already. For a run of
  the top-level pass that returns, the additions are, branch of the result by
  branch and in this order, the entries of the nested passes below the branch and
  then the branch itself; these entries are pairwise distinct, lie among the URLs of
  the subcategories of the branch and of the nodes below them that are not flat
  items, and hold the URL of every subcategory that has such a node as a unit; the
  URLs of the branches are pairwise distinct; and the visited set holds exactly the
  entries and the URLs of the branches.
\<close>

theorem visited_urls_origin:
  "(scrape_main_components e s = Inr (r, s') \<longrightarrow>
      (\<exists>ps. added s' = added s @ concat (map2 branch_marks ps r) \<and>
         list_all2 branch_entries ps r \<and> distinct (concat ps) \<and>
         distinct (map comp_url r) \<and>
         visited_urls s' = set (concat ps) \<union> comp_url ` set r)) \<and>
   (url \<in> visited_urls s \<or> max_depth < depth \<longrightarrow>
      scrape_nested_structure e url depth max_depth s = Inr ([], s)) \<and>
   (url \<notin> visited_urls s \<and> depth \<le> max_depth \<longrightarrow>
      scrape_nested_structure e url depth max_depth s =
        (case page_at e s url of
           None \<Rightarrow> Inr ([], logged (entered s url) url)
         | Some sp \<Rightarrow>
             nested_loop e depth max_depth (sp (level_selector depth))
               (logged (entered s url) url))) \<and>
   (scrape_flat_structure e sp base s = Inr (items, s2) \<longrightarrow>
      visited_urls s2 = visited_urls s \<and> added s2 = added s) \<and>
   (find_h4 a = Some name \<and> href a = Some h \<and> resolve e BASE_URL h = Inr url \<longrightarrow>
      (page_at e s url = None \<longrightarrow> sub_loop e (a # as) s = sub_loop e as (logged s url)) \<and>
      (page_at e s url = Some sp \<and> \<not> has_nested_structure sp \<longrightarrow>
         sub_loop e (a # as) s =
           (case scrape_flat_structure e sp url (logged s url) of
              Inl err \<Rightarrow> Inl err
            | Inr (items, s2) \<Rightarrow>
                (case sub_loop e as s2 of
                   Inl err \<Rightarrow> Inl err
                 | Inr (rest, s3) \<Rightarrow>
                     Inr (\<lparr>sub_name = name, sub_url = url, sub_type = Subcategory,
                           sub_info = extract_additional_info sp,
                           units = attach items\<rparr> # rest, s3)))) \<and>
      (page_at e s url = Some sp \<and> has_nested_structure sp \<longrightarrow>
         sub_loop e (a # as) s =
           (case scrape_nested_structure e url 0 3 (logged s url) of
              Inl err \<Rightarrow> Inl err
            | Inr (items, s2) \<Rightarrow>
                (case sub_loop e as s2 of
                   Inl err \<Rightarrow> Inl err
                 | Inr (rest, s3) \<Rightarrow>
                     Inr (\<lparr>sub_name = name, sub_url = url, sub_type = Subcategory,
                           sub_info = extract_additional_info sp,
                           units = attach items\<rparr> # rest, s3)))) \<and>
      (page_at e s url = Some sp \<and> has_nested_structure sp \<and> url \<notin> visited_urls s \<and>
       sub_loop e (a # as) s = Inr (subcats, s') \<longrightarrow>
         (\<exists>ms. added s' = added s @ Nested_entry url # ms) \<and> url \<in> visited_urls s')) \<and>
   (find_h4 a = Some name \<and> href a = Some h \<and> resolve e BASE_URL h = Inr url \<and>
    url \<notin> visited_urls s \<longrightarrow>
      (page_at e s url = None \<longrightarrow> main_loop e (a # as) s = main_loop e as (logged s url)) \<and>
      (page_at e s url = Some sp \<and>
       sub_loop e (sp anchor_with_heading) (logged s url) = Inr (subcats, s2) \<longrightarrow>
         main_loop e (a # as) s =
           (case main_loop e as (branch_done s2 url) of
              Inl err \<Rightarrow> Inl err
            | Inr (rest, s3) \<Rightarrow>
                Inr (\<lparr>comp_name = name, comp_url = url, comp_type = Main_branch,
                      comp_info = extract_additional_info sp,
                      subcategories = attach subcats\<rparr> # rest, s3))))"
proof -
  have 1: "scrape_main_components e s = Inr (r, s') \<longrightarrow>
      (\<exists>ps. added s' = added s @ concat (map2 branch_marks ps r) \<and>
         list_all2 branch_entries ps r \<and> distinct (concat ps) \<and>
         distinct (map comp_url r) \<and>
         visited_urls s' = set (concat ps) \<union> comp_url ` set r)"
  proof
    assume "scrape_main_components e s = Inr (r, s')"
    then show "\<exists>ps. added s' = added s @ concat (map2 branch_marks ps r) \<and>
         list_all2 branch_entries ps r \<and> distinct (concat ps) \<and>
         distinct (map comp_url r) \<and>
         visited_urls s' = set (concat ps) \<union> comp_url ` set r"
    proof (cases rule: main_components_Inr)
      case failed
      then show ?thesis by simp
    next
      case (page sp0)
      from main_loop_marks [OF page(2)] show ?thesis by auto
    qed
  qed
  have 2: "url \<in> visited_urls s \<or> max_depth < depth \<longrightarrow>
      scrape_nested_structure e url depth max_depth s = Inr ([], s)"
    by (simp add: nested_guard)
  have 3: "url \<notin> visited_urls s \<and> depth \<le> max_depth \<longrightarrow>
      scrape_nested_structure e url depth max_depth s =
        (case page_at e s url of
           None \<Rightarrow> Inr ([], logged (entered s url) url)
         | Some sp \<Rightarrow>
             nested_loop e depth max_depth (sp (level_selector depth))
               (logged (entered s url) url))"
    by (simp add: nested_failed nested_page_step split: option.split)
  have 4: "scrape_flat_structure e sp base s = Inr (items, s2) \<longrightarrow>
      visited_urls s2 = visited_urls s \<and> added s2 = added s"
    using flat_frame [of e sp base s items s2] by simp
  have 5: "find_h4 a = Some name \<and> href a = Some h \<and> resolve e BASE_URL h = Inr url \<longrightarrow>
      (page_at e s url = None \<longrightarrow> sub_loop e (a # as) s = sub_loop e as (logged s url)) \<and>
      (page_at e s url = Some sp \<and> \<not> has_nested_structure sp \<longrightarrow>
         sub_loop e (a # as) s =
           (case scrape_flat_structure e sp url (logged s url) of
              Inl err \<Rightarrow> Inl err
            | Inr (items, s2) \<Rightarrow>
                (case sub_loop e as s2 of
                   Inl err \<Rightarrow> Inl err
                 | Inr (rest, s3) \<Rightarrow>
                     Inr (\<lparr>sub_name = name, sub_url = url, sub_type = Subcategory,
                           sub_info = extract_additional_info sp,
                           units = attach items\<rparr> # rest, s3)))) \<and>
      (page_at e s url = Some sp \<and> has_nested_structure sp \<longrightarrow>
         sub_loop e (a # as) s =
           (case scrape_nested_structure e url 0 3 (logged s url) of
              Inl err \<Rightarrow> Inl err
            | Inr (items, s2) \<Rightarrow>
                (case sub_loop e as s2 of
                   Inl err \<Rightarrow> Inl err
                 | Inr (rest, s3) \<Rightarrow>
                     Inr (\<lparr>sub_name = name, sub_url = url, sub_type = Subcategory,
                           sub_info = extract_additional_info sp,
                           units = attach items\<rparr> # rest, s3)))) \<and>
      (page_at e s url = Some sp \<and> has_nested_structure sp \<and> url \<notin> visited_urls s \<and>
       sub_loop e (a # as) s = Inr (subcats, s') \<longrightarrow>
         (\<exists>ms. added s' = added s @ Nested_entry url # ms) \<and> url \<in> visited_urls s')"
  proof (intro impI conjI)
    assume c: "find_h4 a = Some name \<and> href a = Some h \<and> resolve e BASE_URL h = Inr url"
    {
      assume "page_at e s url = None"
      with c show "sub_loop e (a # as) s = sub_loop e as (logged s url)"
        by (simp add: sub_failed [where h = h])
    }
    {
      assume "page_at e s url = Some sp \<and> \<not> has_nested_structure sp"
      with c show "sub_loop e (a # as) s =
           (case scrape_flat_structure e sp url (logged s url) of
              Inl err \<Rightarrow> Inl err
            | Inr (items, s2) \<Rightarrow>
                (case sub_loop e as s2 of
                   Inl err \<Rightarrow> Inl err
                 | Inr (rest, s3) \<Rightarrow>
                     Inr (\<lparr>sub_name = name, sub_url = url, sub_type = Subcategory,
                           sub_info = extract_additional_info sp,
                           units = attach items\<rparr> # rest, s3)))"
        by (simp add: sub_found [where h = h and sp = sp])
    }
    {
      assume "page_at e s url = Some sp \<and> has_nested_structure sp"
      with c show "sub_loop e (a # as) s =
           (case scrape_nested_structure e url 0 3 (logged s url) of
              Inl err \<Rightarrow> Inl err
            | Inr (items, s2) \<Rightarrow>
                (case sub_loop e as s2 of
                   Inl err \<Rightarrow> Inl err
                 | Inr (rest, s3) \<Rightarrow>
                     Inr (\<lparr>sub_name = name, sub_url = url, sub_type = Subcategory,
                           sub_info = extract_additional_info sp,
                           units = attach items\<rparr> # rest, s3)))"
        by (simp add: sub_found [where h = h and sp = sp])
    }
    {
      assume d: "page_at e s url = Some sp \<and> has_nested_structure sp \<and> url \<notin> visited_urls s \<and>
       sub_loop e (a # as) s = Inr (subcats, s')"
      from c d obtain items s2 rest where
        x: "(if has_nested_structure sp then scrape_nested_structure e url 0 3 (logged s url)
             else scrape_flat_structure e sp url (logged s url)) = Inr (items, s2)"
        and y: "sub_loop e as s2 = Inr (rest, s')"
        by (auto elim: sub_found_Inr [where h = h and sp = sp])
      from x d have n: "scrape_nested_structure e url 0 3 (logged s url) = Inr (items, s2)"
        by simp
      from nested_entries(1) [OF n] d obtain vs where
        vs: "added s2 = added s @ map Nested_entry (url # vs)"
          "visited_urls s2 = visited_urls s \<union> set (url # vs)"
        by auto
      from sub_loop_frame [OF y] obtain us where
        us: "added s' = added s2 @ map Nested_entry us"
          "visited_urls s' = visited_urls s2 \<union> set us"
        by auto
      from vs us have "added s' = added s @ Nested_entry url # map Nested_entry (vs @ us)"
        by simp
      then show "\<exists>ms. added s' = added s @ Nested_entry url # ms" ..
      from vs us show "url \<in> visited_urls s'" by simp
    }
  qed
  have 6: "find_h4 a = Some name \<and> href a = Some h \<and> resolve e BASE_URL h = Inr url \<and>
    url \<notin> visited_urls s \<longrightarrow>
      (page_at e s url = None \<longrightarrow> main_loop e (a # as) s = main_loop e as (logged s url)) \<and>
      (page_at e s url = Some sp \<and>
       sub_loop e (sp anchor_with_heading) (logged s url) = Inr (subcats, s2) \<longrightarrow>
         main_loop e (a # as) s =
           (case main_loop e as (branch_done s2 url) of
              Inl err \<Rightarrow> Inl err
            | Inr (rest, s3) \<Rightarrow>
                Inr (\<lparr>comp_name = name, comp_url = url, comp_type = Main_branch,
                      comp_info = extract_additional_info sp,
                      subcategories = attach subcats\<rparr> # rest, s3)))"
    by (simp add: main_failed [where h = h] main_found [where h = h and sp = sp])
  from 1 2 3 4 5 6 show ?thesis by (intro conjI)
qed

theorem visited_urls_origin_witness:
  "(\<exists>ps. [Nested_entry ''http://s'', Nested_entry ''http://x'', Branch_done ''http://b''] =
           concat (map2 branch_marks ps small_tree) \<and>
         distinct (concat ps) \<and>
         {''http://b'', ''http://x'', ''http://s''} =
           set (concat ps) \<union> comp_url ` set small_tree) \<and>
   scrape_nested_structure down_site ''http://x'' 0 3 start =
     Inr ([], \<lparr>visited_urls = {''http://x''}, fetched = [''http://x''],
               added = [Nested_entry ''http://x'']\<rparr>) \<and>
   scrape_nested_structure down_site ''http://x'' 4 3 start = Inr ([], start)"
proof -
  from visited_urls_origin [THEN conjunct1, THEN mp, OF nested_site_run]
  obtain ps where ps:
    "added \<lparr>visited_urls = {''http://b'', ''http://x'', ''http://s''},
       fetched = [TARGET_URL, ''http://b'', ''http://s'', ''http://s'', ''http://x'',
                  ''http://x'', ''http://y''],
       added = [Nested_entry ''http://s'', Nested_entry ''http://x'',
                Branch_done ''http://b'']\<rparr> =
     added start @ concat (map2 branch_marks ps small_tree)"
    "distinct (concat ps)"
    "visited_urls \<lparr>visited_urls = {''http://b'', ''http://x'', ''http://s''},
       fetched = [TARGET_URL, ''http://b'', ''http://s'', ''http://s'', ''http://x'',
                  ''http://x'', ''http://y''],
       added = [Nested_entry ''http://s'', Nested_entry ''http://x'',
                Branch_done ''http://b'']\<rparr> =
     set (concat ps) \<union> comp_url ` set small_tree"
    by blast
  have a: "\<exists>ps. [Nested_entry ''http://s'', Nested_entry ''http://x'', Branch_done ''http://b''] =
           concat (map2 branch_marks ps small_tree) \<and>
         distinct (concat ps) \<and>
         {''http://b'', ''http://x'', ''http://s''} =
           set (concat ps) \<union> comp_url ` set small_tree"
  proof (intro exI [where x = ps] conjI)
    from ps(1) show "[Nested_entry ''http://s'', Nested_entry ''http://x'',
        Branch_done ''http://b''] = concat (map2 branch_marks ps small_tree)"
      by (simp add: start_def)
    from ps(2) show "distinct (concat ps)" .
    from ps(3) show "{''http://b'', ''http://x'', ''http://s''} =
           set (concat ps) \<union> comp_url ` set small_tree"
      by simp
  qed
  have v: "''http://x'' \<notin> visited_urls start \<and> (0::int) \<le> 3"
    by (simp add: start_def)
  have p: "page_at down_site start ''http://x'' = None"
    by (simp add: down_site_def site_def)
  have b: "scrape_nested_structure down_site ''http://x'' 0 3 start =
     Inr ([], \<lparr>visited_urls = {''http://x''}, fetched = [''http://x''],
               added = [Nested_entry ''http://x'']\<rparr>)"
    using visited_urls_origin
      [THEN conjunct2, THEN conjunct2, THEN conjunct1, THEN mp, OF v, of down_site]
    by (simp add: p) (simp add: start_def)
  have g: "''http://x'' \<in> visited_urls start \<or> (3::int) < 4"
    by simp
  have c: "scrape_nested_structure down_site ''http://x'' 4 3 start = Inr ([], start)"
    using visited_urls_origin [THEN conjunct2, THEN conjunct1, THEN mp, OF g] .
  from a b c show ?thesis by (intro conjI)
qed

end
